theory Spec2Isabelle
  imports Complex_Main "HOL-Library.Multiset"
begin

section \<open>Data model (types.ts, restricted to the fields the graph component reads)\<close>

text \<open>
  JavaScript numbers are modelled exactly: levels and counters as integers and naturals,
  coordinates, weights and percentages as rationals.  Every such number is a quotient of
  small integers; the double-precision operations of the source are monotone and exact or
  correctly rounded on them, so comparisons come out as in exact arithmetic.  Strings are
  \<open>string\<close>.  A \<open>Set<string>\<close> is a \<open>string set\<close>.  \<open>Topic.level\<close> is declared
  \<open>1 | 2 | 3 | 4 | 5\<close>; the model takes any integer and states positivity where it is needed.
\<close>

record subTopic =
  subTopic_id :: string

record teacher =
  teacher_email :: string

record topic =
  topic_id :: string
  level :: int
  subTopics :: "subTopic list"
  relatedTopics :: "string list"
  teacher :: teacher

record stats =
  completed :: nat
  total :: nat
  percent :: rat

section \<open>Progress statistics (TopicGraph.tsx, getProgressStats and isComplete)\<close>

definition getProgressStats :: "string set \<Rightarrow> topic \<Rightarrow> stats" where
  "getProgressStats completedSubTopics t =
     (if length (subTopics t) = 0 then \<lparr>completed = 0, total = 0, percent = 0\<rparr>
      else
        let c = length (filter (\<lambda>st. subTopic_id st \<in> completedSubTopics) (subTopics t));
            n = length (subTopics t)
        in \<lparr>completed = c, total = n, percent = (of_nat c / of_nat n) * 100\<rparr>)"

definition isComplete :: "string set \<Rightarrow> topic \<Rightarrow> bool" where
  "isComplete completedSubTopics t =
     (let s = getProgressStats completedSubTopics t in total s > 0 \<and> percent s = 100)"

section \<open>Layout constants\<close>

definition NODE_WIDTH :: rat where "NODE_WIDTH = 240"
definition NODE_HEIGHT :: rat where "NODE_HEIGHT = 160"
definition LEVEL_SPACING :: rat where "LEVEL_SPACING = 500"
definition NODE_SPACING :: rat where "NODE_SPACING = 280"
definition CONNECTOR_OFFSET :: rat where "CONNECTOR_OFFSET = 15"

section \<open>Layout engine (TopicGraph.tsx, lines 49-114)\<close>

record position =
  pos_x :: rat
  pos_y :: rat

type_synonym levelsRec = "int \<rightharpoonup> topic list"
type_synonym posMap = "string \<rightharpoonup> position"

text \<open>
  The body of \<open>topics.forEach\<close> that fills the \<open>levels\<close> record and tracks \<open>maxLevel\<close>.
\<close>

definition addToLevels :: "topic \<Rightarrow> levelsRec \<times> int \<Rightarrow> levelsRec \<times> int" where
  "addToLevels t = (\<lambda>(levels, maxLevel).
     (levels(level t \<mapsto> (case levels (level t) of None \<Rightarrow> [] | Some ns \<Rightarrow> ns) @ [t]),
      if level t > maxLevel then level t else maxLevel))"

definition buildLevels :: "topic list \<Rightarrow> levelsRec \<times> int" where
  "buildLevels topics = fold addToLevels topics (Map.empty, 0)"

text \<open>\<open>levels[lvl] || []\<close>\<close>

definition levelNodes :: "levelsRec \<Rightarrow> int \<Rightarrow> topic list" where
  "levelNodes levels lvl = (case levels lvl of None \<Rightarrow> [] | Some ns \<Rightarrow> ns)"

text \<open>
  \<open>sortedNodes.forEach((node, i) => nodePositions.set(node.id, ...))\<close>: the running index
  is the third argument.
\<close>

fun setPositions :: "rat \<Rightarrow> rat \<Rightarrow> nat \<Rightarrow> topic list \<Rightarrow> posMap \<Rightarrow> posMap" where
  "setPositions startX startY i [] nodePositions = nodePositions"
| "setPositions startX startY i (n # rest) nodePositions =
     setPositions startX startY (Suc i) rest
       (nodePositions(topic_id n \<mapsto> \<lparr>pos_x = startX, pos_y = startY + of_nat i * NODE_SPACING\<rparr>))"

definition applySpacing :: "rat \<Rightarrow> topic list \<Rightarrow> rat \<Rightarrow> posMap \<Rightarrow> posMap" where
  "applySpacing height sortedNodes startX nodePositions =
     (let count = length sortedNodes;
          totalHeight = of_nat count * NODE_SPACING;
          startY = (height / 2) - (totalHeight / 2) + (NODE_SPACING / 2)
      in setPositions startX startY 0 sortedNodes nodePositions)"

text \<open>
  The three counting loops of the engine: \<open>for (lvl = a; lvl <= hi; lvl++)\<close>,
  \<open>for (lvl = a; lvl >= lo; lvl--)\<close> and \<open>for (i = 0; i < 10; i++)\<close>.
\<close>

function forUp :: "int \<Rightarrow> int \<Rightarrow> (int \<Rightarrow> 's \<Rightarrow> 's) \<Rightarrow> 's \<Rightarrow> 's" where
  "forUp lvl hi body s = (if lvl \<le> hi then forUp (lvl + 1) hi body (body lvl s) else s)"
  by pat_completeness auto
termination
  by (relation "measure (\<lambda>(lvl, hi, body, s). nat (hi + 1 - lvl))") auto

function forDown :: "int \<Rightarrow> int \<Rightarrow> (int \<Rightarrow> 's \<Rightarrow> 's) \<Rightarrow> 's \<Rightarrow> 's" where
  "forDown lvl lo body s = (if lvl \<ge> lo then forDown (lvl - 1) lo body (body lvl s) else s)"
  by pat_completeness auto
termination
  by (relation "measure (\<lambda>(lvl, lo, body, s). nat (lvl + 1 - lo))") auto

function tenPasses :: "nat \<Rightarrow> ('s \<Rightarrow> 's) \<Rightarrow> 's \<Rightarrow> 's" where
  "tenPasses i body s = (if i < 10 then tenPasses (i + 1) body (body s) else s)"
  by pat_completeness auto
termination
  by (relation "measure (\<lambda>(i, body, s). 10 - i)") auto

declare forUp.simps [simp del] forDown.simps [simp del] tenPasses.simps [simp del]

definition initialPositions :: "rat \<Rightarrow> levelsRec \<Rightarrow> int \<Rightarrow> posMap" where
  "initialPositions height levels maxLevel =
     forUp 1 maxLevel
       (\<lambda>lvl. applySpacing height (levelNodes levels lvl) (100 + (of_int lvl - 1) * LEVEL_SPACING))
       Map.empty"

text \<open>\<open>nodePositions.get(id)?.y || 0\<close>\<close>

definition getY :: "posMap \<Rightarrow> string \<Rightarrow> rat" where
  "getY nodePositions k = (case nodePositions k of None \<Rightarrow> 0 | Some p \<Rightarrow> pos_y p)"

definition forwardWeight :: "topic list \<Rightarrow> posMap \<Rightarrow> int \<Rightarrow> topic \<Rightarrow> rat" where
  "forwardWeight topics nodePositions lvl n =
     (let parents = filter (\<lambda>p. topic_id n \<in> set (relatedTopics p) \<and> level p < lvl) topics;
          weight = getY nodePositions (topic_id n)
      in if length parents > 0
         then foldl (\<lambda>sum p. sum + getY nodePositions (topic_id p)) 0 parents
                / of_nat (length parents)
         else weight)"

definition backwardWeight :: "topic list \<Rightarrow> posMap \<Rightarrow> int \<Rightarrow> topic \<Rightarrow> rat" where
  "backwardWeight topics nodePositions lvl n =
     (let children = filter (\<lambda>t. topic_id t \<in> set (relatedTopics n) \<and> level t > lvl) topics;
          weight = getY nodePositions (topic_id n)
      in if length children > 0
         then foldl (\<lambda>sum c. sum + getY nodePositions (topic_id c)) 0 children
                / of_nat (length children)
         else weight)"

text \<open>
  One level of a pass: weigh the nodes of \<open>levels[lvl]\<close> (always in the order of the
  record, which is the input order), sort the pairs by weight (\<open>Array.prototype.sort\<close> is
  stable, as \<open>sort_key\<close> is) and re-space the level.
\<close>

definition levelPass ::
  "(topic list \<Rightarrow> posMap \<Rightarrow> int \<Rightarrow> topic \<Rightarrow> rat) \<Rightarrow> rat \<Rightarrow> topic list \<Rightarrow> levelsRec \<Rightarrow> int \<Rightarrow> posMap \<Rightarrow> posMap" where
  "levelPass weightOf height topics levels lvl nodePositions =
     (let currentNodes = levelNodes levels lvl;
          nodesWithWeight = map (\<lambda>n. (n, weightOf topics nodePositions lvl n)) currentNodes;
          sorted = sort_key snd nodesWithWeight
      in applySpacing height (map fst sorted) (100 + (of_int lvl - 1) * LEVEL_SPACING) nodePositions)"

definition refinementPass :: "rat \<Rightarrow> topic list \<Rightarrow> levelsRec \<Rightarrow> int \<Rightarrow> posMap \<Rightarrow> posMap" where
  "refinementPass height topics levels maxLevel nodePositions =
     forDown (maxLevel - 1) 1 (levelPass backwardWeight height topics levels)
       (forUp 2 maxLevel (levelPass forwardWeight height topics levels) nodePositions)"

definition computeLayout :: "topic list \<Rightarrow> rat \<Rightarrow> posMap" where
  "computeLayout topics height =
     (let (levels, maxLevel) = buildLevels topics
      in tenPasses 0 (refinementPass height topics levels maxLevel)
           (initialPositions height levels maxLevel))"

section \<open>Node objects and links (TopicGraph.tsx, lines 116-154)\<close>

record node =
  node_topic :: topic
  node_x :: rat
  node_y :: rat
  node_stats :: stats
  node_complete :: bool

definition mkNode :: "string set \<Rightarrow> posMap \<Rightarrow> topic \<Rightarrow> node" where
  "mkNode completedSubTopics nodePositions t =
     (let pos = (case nodePositions (topic_id t) of
                   None \<Rightarrow> \<lparr>pos_x = 0, pos_y = 0\<rparr> | Some p \<Rightarrow> p);
          st = getProgressStats completedSubTopics t
      in \<lparr>node_topic = t, node_x = pos_x pos, node_y = pos_y pos, node_stats = st,
          node_complete = (percent st = 100)\<rparr>)"

definition buildNodes :: "string set \<Rightarrow> posMap \<Rightarrow> topic list \<Rightarrow> node list" where
  "buildNodes completedSubTopics nodePositions topics =
     map (mkNode completedSubTopics nodePositions) topics"

record linkData =
  source :: node
  target :: node
  active :: bool
  sourceIndex :: "nat option"
  sourceTotal :: "nat option"
  targetIndex :: "nat option"
  targetTotal :: "nat option"

text \<open>
  The inner \<open>source.relatedTopics.forEach\<close>: \<open>nodes.find\<close> yields the first node with the
  id, or \<open>undefined\<close>, in which case nothing is pushed.
\<close>

definition linksFrom :: "node list \<Rightarrow> node \<Rightarrow> linkData list" where
  "linksFrom nodes src =
     concat (map (\<lambda>targetId.
       case find (\<lambda>n. topic_id (node_topic n) = targetId) nodes of
         None \<Rightarrow> []
       | Some tgt \<Rightarrow>
           if level (node_topic src) < level (node_topic tgt)
           then [\<lparr>source = src, target = tgt, active = node_complete src,
                  sourceIndex = None, sourceTotal = None,
                  targetIndex = None, targetTotal = None\<rparr>]
           else [])
       (relatedTopics (node_topic src)))"

definition allLinks :: "node list \<Rightarrow> linkData list" where
  "allLinks nodes = concat (map (linksFrom nodes) nodes)"

section \<open>Port sorting (TopicGraph.tsx, lines 156-175)\<close>

text \<open>
  The link objects are shared between \<open>allLinks\<close> and the filtered arrays and are mutated
  in place, so the list of links is the store and a link is referred to by its position in
  it.  \<open>setPorts\<close> is the \<open>forEach((link, i) => ...)\<close> over the sorted references.  The two
  loops of the source differ only in the end of the link they group by, the end they sort
  by and the fields they assign.
\<close>

fun setPorts ::
  "(nat \<Rightarrow> nat \<Rightarrow> linkData \<Rightarrow> linkData) \<Rightarrow> nat \<Rightarrow> nat \<Rightarrow> nat list \<Rightarrow> linkData list \<Rightarrow> linkData list" where
  "setPorts assign n i [] links = links"
| "setPorts assign n i (a # rest) links =
     setPorts assign n (Suc i) rest (links[a := assign i n (links ! a)])"

definition sortPorts ::
  "(linkData \<Rightarrow> string) \<Rightarrow> (linkData \<Rightarrow> rat) \<Rightarrow> (nat \<Rightarrow> nat \<Rightarrow> linkData \<Rightarrow> linkData)
     \<Rightarrow> node \<Rightarrow> linkData list \<Rightarrow> linkData list" where
  "sortPorts endId otherY assign nd links =
     (let matching = filter (\<lambda>a. endId (links ! a) = topic_id (node_topic nd)) [0..<length links];
          sorted = sort_key (\<lambda>a. otherY (links ! a)) matching
      in setPorts assign (length sorted) 0 sorted links)"

definition sortSourcePorts :: "node \<Rightarrow> linkData list \<Rightarrow> linkData list" where
  "sortSourcePorts =
     sortPorts (\<lambda>l. topic_id (node_topic (source l))) (\<lambda>l. node_y (target l))
       (\<lambda>i n l. l\<lparr>sourceIndex := Some i, sourceTotal := Some n\<rparr>)"

definition sortTargetPorts :: "node \<Rightarrow> linkData list \<Rightarrow> linkData list" where
  "sortTargetPorts =
     sortPorts (\<lambda>l. topic_id (node_topic (target l))) (\<lambda>l. node_y (source l))
       (\<lambda>i n l. l\<lparr>targetIndex := Some i, targetTotal := Some n\<rparr>)"

definition routeEdges :: "node list \<Rightarrow> linkData list" where
  "routeEdges nodes = fold sortTargetPorts nodes (fold sortSourcePorts nodes (allLinks nodes))"

section \<open>Initial zoom fit (TopicGraph.tsx, lines 190-222)\<close>

text \<open>
  A \<open>d3.ZoomTransform\<close> is \<open>{k, x, y}\<close>; \<open>translate\<close>, \<open>scale\<close> and \<open>applyX\<close>/\<open>applyY\<close>
  follow d3-zoom.  \<open>d3.min\<close> and \<open>d3.max\<close> yield \<open>undefined\<close> on an empty array, which
  \<open>|| 0\<close> replaces by 0.
\<close>

record zoomTransform =
  zt_k :: rat
  zt_x :: rat
  zt_y :: rat

definition zoomIdentity :: zoomTransform where
  "zoomIdentity = \<lparr>zt_k = 1, zt_x = 0, zt_y = 0\<rparr>"

definition translate :: "zoomTransform \<Rightarrow> rat \<Rightarrow> rat \<Rightarrow> zoomTransform" where
  "translate t dx dy = \<lparr>zt_k = zt_k t, zt_x = zt_x t + zt_k t * dx, zt_y = zt_y t + zt_k t * dy\<rparr>"

definition scale :: "zoomTransform \<Rightarrow> rat \<Rightarrow> zoomTransform" where
  "scale t k = \<lparr>zt_k = zt_k t * k, zt_x = zt_x t, zt_y = zt_y t\<rparr>"

definition applyX :: "zoomTransform \<Rightarrow> rat \<Rightarrow> rat" where
  "applyX t a = a * zt_k t + zt_x t"

definition applyY :: "zoomTransform \<Rightarrow> rat \<Rightarrow> rat" where
  "applyY t a = a * zt_k t + zt_y t"

fun d3_min :: "rat list \<Rightarrow> rat option" where
  "d3_min [] = None"
| "d3_min (a # as) = Some (fold min as a)"

fun d3_max :: "rat list \<Rightarrow> rat option" where
  "d3_max [] = None"
| "d3_max (a # as) = Some (fold max as a)"

definition orZero :: "rat option \<Rightarrow> rat" where
  "orZero v = (case v of None \<Rightarrow> 0 | Some a \<Rightarrow> a)"

definition fitScale :: "rat \<Rightarrow> rat \<Rightarrow> rat \<Rightarrow> rat \<Rightarrow> rat" where
  "fitScale availableWidth graphWidth availableHeight graphHeight =
     (let s0 = min (availableWidth / graphWidth) (availableHeight / graphHeight);
          s1 = (if s0 > 1 then 1 else s0)
      in if s1 < 1 / 10 then 1 / 10 else s1)"

text \<open>The bounding box of the graph: \<open>(minX, maxX, minY, maxY)\<close>.\<close>

definition graphBounds :: "node list \<Rightarrow> rat \<times> rat \<times> rat \<times> rat" where
  "graphBounds nodes =
     (orZero (d3_min (map node_x nodes)),
      orZero (d3_max (map (\<lambda>d. node_x d + NODE_WIDTH) nodes)),
      orZero (d3_min (map node_y nodes)),
      orZero (d3_max (map (\<lambda>d. node_y d + NODE_HEIGHT) nodes)))"

definition initialTransform :: "rat \<Rightarrow> rat \<Rightarrow> node list \<Rightarrow> zoomTransform" where
  "initialTransform width height nodes =
     (let (minX, maxX, minY, maxY) = graphBounds nodes;
          graphWidth = maxX - minX;
          graphHeight = maxY - minY;
          padding = 100;
          availableWidth = width - (padding * 2);
          availableHeight = height - (padding * 2);
          k = fitScale availableWidth graphWidth availableHeight graphHeight;
          centerX = (minX + maxX) / 2;
          centerY = (minY + maxY) / 2;
          tx = (width / 2) - (k * centerX);
          ty = (height / 2) - (k * centerY)
      in scale (translate zoomIdentity tx ty) k)"

text \<open>
  The bounding box, projected through a transform, lies within the viewport
  \<open>[0, width] \<times> [0, height]\<close>.
\<close>

definition fitsViewport :: "rat \<Rightarrow> rat \<Rightarrow> zoomTransform \<Rightarrow> node list \<Rightarrow> bool" where
  "fitsViewport width height t nodes =
     (let (minX, maxX, minY, maxY) = graphBounds nodes
      in 0 \<le> applyX t minX \<and> applyX t maxX \<le> width \<and> 0 \<le> applyY t minY \<and> applyY t maxY \<le> height)"

section \<open>The render effect with the instructor filter (second TopicGraph variant)\<close>

definition isZoomIdentity :: "zoomTransform \<Rightarrow> bool" where
  "isZoomIdentity t = (zt_k t = 1 \<and> zt_x t = 0 \<and> zt_y t = 0)"

text \<open>
  What a run of the effect finds from the runs before it: \<open>transformRef.current\<close>, and
  whether the svg element holds an open zoom gesture (\<open>svg.__zooming\<close>, which d3-zoom sets
  at the start of a gesture and deletes at its end: while a drag lasts, and for 150 ms after
  a wheel event).  On first mount the transform is the identity and no gesture is open.
\<close>

record viewState =
  transformRef :: zoomTransform
  gestureOpen :: bool

definition freshView :: viewState where
  "freshView = \<lparr>transformRef = zoomIdentity, gestureOpen = False\<rparr>"

text \<open>The \<open>if (!isZoomIdentity) ... else ...\<close> that picks the argument of \<open>zoom.transform\<close>.\<close>

definition transformToApply :: "zoomTransform \<Rightarrow> zoomTransform \<Rightarrow> zoomTransform" where
  "transformToApply current initial = (if \<not> isZoomIdentity current then current else initial)"

text \<open>
  \<open>svg.call(zoom.transform, t)\<close>, after d3-zoom.  Every run of the effect removes the old
  group, appends a new one without a transform attribute and creates a new zoom behaviour
  whose handler draws that group.  \<open>zoom.transform\<close> takes the open gesture of the element
  if there is one, and a gesture emits to the handler of the behaviour that created it.  So
  with an open gesture the zoom event reaches the handler of the previous run, which sets
  the attribute of the removed group: the new group stays without a transform.  Without
  one, the event reaches the new handler, which sets the attribute of the new group.  Both
  handlers store the transform in \<open>transformRef.current\<close>.  The result is the transform
  attribute of the new group (\<open>None\<close>: not set) and the new \<open>transformRef.current\<close>.
\<close>

definition callZoomTransform :: "bool \<Rightarrow> zoomTransform \<Rightarrow> zoomTransform option \<times> zoomTransform" where
  "callZoomTransform zooming t = (if zooming then None else Some t, t)"

record scene =
  scene_nodes :: "node list"
  scene_links :: "linkData list"
  scene_nodeOpacity :: "rat list"
  scene_linkOpacity :: "rat list"
  scene_transform :: "zoomTransform option"
  scene_transformRef :: zoomTransform

definition hiddenNode :: "string set \<Rightarrow> node \<Rightarrow> bool" where
  "hiddenNode hiddenTeacherEmails d = (teacher_email (teacher (node_topic d)) \<in> hiddenTeacherEmails)"

definition linkOpacity :: "string set \<Rightarrow> linkData \<Rightarrow> rat" where
  "linkOpacity hiddenTeacherEmails d =
     (if hiddenNode hiddenTeacherEmails (source d) \<or> hiddenNode hiddenTeacherEmails (target d)
      then 1 / 10 else if active d then 1 else 1 / 2)"

text \<open>
  One run of the effect, for a mounted component: \<open>None\<close> is the early return on an empty
  topic list.  The result is what is drawn: the nodes and links, their opacities and the
  transform attribute of the group that holds them, with the new \<open>transformRef.current\<close>.
\<close>

definition renderEffect ::
  "topic list \<Rightarrow> string set \<Rightarrow> string set \<Rightarrow> viewState \<Rightarrow> rat \<Rightarrow> rat \<Rightarrow> scene option" where
  "renderEffect topics completedSubTopics hiddenTeacherEmails view width height =
     (if length topics = 0 then None
      else
        let nodePositions = computeLayout topics height;
            nodes = buildNodes completedSubTopics nodePositions topics;
            links = routeEdges nodes;
            (drawn, stored) =
               callZoomTransform (gestureOpen view)
                 (transformToApply (transformRef view) (initialTransform width height nodes))
        in Some \<lparr>scene_nodes = nodes, scene_links = links,
                 scene_nodeOpacity =
                   map (\<lambda>d. if hiddenNode hiddenTeacherEmails d then 1 / 5 else 1) nodes,
                 scene_linkOpacity = map (linkOpacity hiddenTeacherEmails) links,
                 scene_transform = drawn, scene_transformRef = stored\<rparr>)"

section \<open>Notions used to state the properties\<close>

text \<open>The topics of one level, in input order.\<close>

definition bucket :: "topic list \<Rightarrow> int \<Rightarrow> topic list" where
  "bucket topics lvl = filter (\<lambda>t. level t = lvl) topics"

text \<open>
  The two invariants of a topic list in the data model: the id identifies the topic (the
  builder creates ids with \<open>getUniqueId\<close>), and the level is a positive integer.
\<close>

definition uniqueIds :: "topic list \<Rightarrow> bool" where
  "uniqueIds topics = distinct (map topic_id topics)"

definition positiveLevels :: "topic list \<Rightarrow> bool" where
  "positiveLevels topics = (\<forall>t \<in> set topics. 1 \<le> level t)"

text \<open>
  The column of a level and the slot of the \<open>i\<close>-th of \<open>n\<close> nodes; a list of nodes placed in
  that order in the column of its level; and the levels of a set all placed in some order.
\<close>

definition columnX :: "int \<Rightarrow> rat" where
  "columnX lvl = 100 + (of_int lvl - 1) * 500"

definition slotY :: "rat \<Rightarrow> nat \<Rightarrow> nat \<Rightarrow> rat" where
  "slotY height n i = height / 2 - (of_nat n * 280) / 2 + 140 + of_nat i * 280"

definition placed :: "rat \<Rightarrow> int \<Rightarrow> topic list \<Rightarrow> posMap \<Rightarrow> bool" where
  "placed height lvl order nodePositions =
     (\<forall>i < length order. nodePositions (topic_id (order ! i))
        = Some \<lparr>pos_x = columnX lvl, pos_y = slotY height (length order) i\<rparr>)"

definition columns :: "rat \<Rightarrow> topic list \<Rightarrow> int set \<Rightarrow> posMap \<Rightarrow> bool" where
  "columns height topics S nodePositions =
     (\<forall>l \<in> S. \<exists>order. mset order = mset (bucket topics l) \<and> placed height l order nodePositions)"

text \<open>
  Parents and children of a node, and a level none of whose nodes has either.
\<close>

definition parentsOf :: "topic list \<Rightarrow> topic \<Rightarrow> topic list" where
  "parentsOf topics n =
     filter (\<lambda>p. level p < level n \<and> topic_id n \<in> set (relatedTopics p)) topics"

definition childrenOf :: "topic list \<Rightarrow> topic \<Rightarrow> topic list" where
  "childrenOf topics n =
     filter (\<lambda>c. level n < level c \<and> topic_id c \<in> set (relatedTopics n)) topics"

definition isolatedLevel :: "topic list \<Rightarrow> int \<Rightarrow> bool" where
  "isolatedLevel topics lvl =
     (\<forall>n \<in> set (bucket topics lvl). parentsOf topics n = [] \<and> childrenOf topics n = [])"

text \<open>
  The layout as the specification words it.  Placing a level (steps 2 and 3): the \<open>i\<close>-th
  of the \<open>N\<close> nodes of the ordered sequence gets the x of the level and
  \<open>y = startY + i * nodeSpacing\<close>, written as a table from ids to positions laid over the
  map (where two nodes of the sequence have the same id, the later one counts).  The initial
  placement (step 4) places every level 1..maxLevel in input order.  Then the refinement
  (step 5): the current y of a placed node, the arithmetic mean, the sort weight of a node
  given its neighbours, the re-sorting of one level, the forward and the backward pass, and
  a sweep.
\<close>

definition placeLevel :: "rat \<Rightarrow> int \<Rightarrow> topic list \<Rightarrow> posMap \<Rightarrow> posMap" where
  "placeLevel height lvl order nodePositions =
     nodePositions ++
       map_of (rev (zip (map topic_id order)
                        (map (\<lambda>i. \<lparr>pos_x = columnX lvl, pos_y = slotY height (length order) i\<rparr>)
                             [0..<length order])))"

definition currentY :: "posMap \<Rightarrow> topic \<Rightarrow> rat" where
  "currentY nodePositions n = pos_y (the (nodePositions (topic_id n)))"

definition mean :: "rat list \<Rightarrow> rat" where
  "mean ys = sum_list ys / of_nat (length ys)"

definition sortWeight :: "posMap \<Rightarrow> topic list \<Rightarrow> topic \<Rightarrow> rat" where
  "sortWeight nodePositions neighbours n =
     (if neighbours = [] then currentY nodePositions n
      else mean (map (currentY nodePositions) neighbours))"

definition resortLevel ::
  "rat \<Rightarrow> topic list \<Rightarrow> (topic \<Rightarrow> topic list) \<Rightarrow> int \<Rightarrow> posMap \<Rightarrow> posMap" where
  "resortLevel height topics neighbours lvl nodePositions =
     placeLevel height lvl
       (sort_key (\<lambda>n. sortWeight nodePositions (neighbours n) n) (bucket topics lvl))
       nodePositions"

definition topLevel :: "topic list \<Rightarrow> int" where
  "topLevel topics = Max (set (0 # map level topics))"

definition initialPlacementSpec :: "rat \<Rightarrow> topic list \<Rightarrow> posMap" where
  "initialPlacementSpec height topics =
     fold (\<lambda>lvl. placeLevel height lvl (bucket topics lvl)) [1..topLevel topics] Map.empty"

definition forwardPassSpec :: "rat \<Rightarrow> topic list \<Rightarrow> posMap \<Rightarrow> posMap" where
  "forwardPassSpec height topics =
     fold (resortLevel height topics (parentsOf topics)) [2..topLevel topics]"

definition backwardPassSpec :: "rat \<Rightarrow> topic list \<Rightarrow> posMap \<Rightarrow> posMap" where
  "backwardPassSpec height topics =
     fold (resortLevel height topics (childrenOf topics)) (rev [1..topLevel topics - 1])"

definition sweepSpec :: "rat \<Rightarrow> topic list \<Rightarrow> posMap \<Rightarrow> posMap" where
  "sweepSpec height topics nodePositions =
     backwardPassSpec height topics (forwardPassSpec height topics nodePositions)"

text \<open>The positions of the links leaving and entering a node, in the list of links.\<close>

definition outgoing :: "linkData list \<Rightarrow> node \<Rightarrow> nat set" where
  "outgoing links nd =
     {a. a < length links \<and> topic_id (node_topic (source (links ! a))) = topic_id (node_topic nd)}"

definition incoming :: "linkData list \<Rightarrow> node \<Rightarrow> nat set" where
  "incoming links nd =
     {a. a < length links \<and> topic_id (node_topic (target (links ! a))) = topic_id (node_topic nd)}"

text \<open>
  Notions for the port sorting: the sorted references one iteration works on, two lists of
  links that agree on the ends and the activity of every link, a list of links whose ports
  along an order are numbered, and the conditions on the parameters of \<open>sortPorts\<close>.
\<close>

definition portOrder :: "(linkData \<Rightarrow> string) \<Rightarrow> (linkData \<Rightarrow> rat) \<Rightarrow> string \<Rightarrow> linkData list \<Rightarrow> nat list" where
  "portOrder endId otherY k links =
     sort_key (\<lambda>a. otherY (links ! a)) (filter (\<lambda>a. endId (links ! a) = k) [0..<length links])"

definition sameEnds :: "linkData list \<Rightarrow> linkData list \<Rightarrow> bool" where
  "sameEnds links links' =
     (length links' = length links \<and>
      (\<forall>a < length links. source (links' ! a) = source (links ! a)
          \<and> target (links' ! a) = target (links ! a) \<and> active (links' ! a) = active (links ! a)))"

definition ported :: "(linkData \<Rightarrow> nat option \<times> nat option) \<Rightarrow> nat list \<Rightarrow> linkData list \<Rightarrow> bool" where
  "ported rd ord links = (\<forall>j < length ord. rd (links ! (ord ! j)) = (Some j, Some (length ord)))"

definition readsEnds :: "(linkData \<Rightarrow> string) \<Rightarrow> (linkData \<Rightarrow> rat) \<Rightarrow> bool" where
  "readsEnds endId otherY =
     (\<forall>l l'. source l' = source l \<and> target l' = target l \<longrightarrow> endId l' = endId l \<and> otherY l' = otherY l)"

definition keepsEnds :: "(nat \<Rightarrow> nat \<Rightarrow> linkData \<Rightarrow> linkData) \<Rightarrow> bool" where
  "keepsEnds assign =
     (\<forall>i n l. source (assign i n l) = source l \<and> target (assign i n l) = target l
        \<and> active (assign i n l) = active l)"

text \<open>
  What the layout of a node and the geometry of a link consist of: the topic and position
  of a node, and the two ends of a link with its four port numbers.  \<open>topicLinks\<close> lists
  the pairs of topics joined by a link, from the topics alone.
\<close>

definition nodeGeometry :: "node \<Rightarrow> topic \<times> rat \<times> rat" where
  "nodeGeometry n = (node_topic n, node_x n, node_y n)"

definition linkGeometry ::
  "linkData \<Rightarrow> (topic \<times> rat \<times> rat) \<times> (topic \<times> rat \<times> rat) \<times> nat option \<times> nat option \<times> nat option \<times> nat option" where
  "linkGeometry l =
     (nodeGeometry (source l), nodeGeometry (target l),
      sourceIndex l, sourceTotal l, targetIndex l, targetTotal l)"

definition topicLinks :: "topic list \<Rightarrow> (topic \<times> topic) list" where
  "topicLinks topics =
     concat (map (\<lambda>s. concat (map (\<lambda>targetId.
       case find (\<lambda>t. topic_id t = targetId) topics of
         None \<Rightarrow> []
       | Some tg \<Rightarrow> if level s < level tg then [(s, tg)] else [])
       (relatedTopics s))) topics)"

section \<open>Example curricula\<close>

text \<open>
  The two-topic scenario \<open>A(level 1, relatedTopics = [B]) \<rightarrow> B(level 2)\<close> and the three
  unrelated level-2 topics \<open>P, Q, R\<close>.
\<close>

definition topicA :: topic where
  "topicA = \<lparr>topic_id = ''A'', level = 1, subTopics = [\<lparr>subTopic_id = ''A-1''\<rparr>],
              relatedTopics = [''B''], teacher = \<lparr>teacher_email = ''ada@d-be.com''\<rparr>\<rparr>"

definition topicB :: topic where
  "topicB = \<lparr>topic_id = ''B'', level = 2, subTopics = [\<lparr>subTopic_id = ''B-1''\<rparr>],
              relatedTopics = [], teacher = \<lparr>teacher_email = ''bob@d-be.com''\<rparr>\<rparr>"

definition topicP :: topic where
  "topicP = \<lparr>topic_id = ''P'', level = 2, subTopics = [],
              relatedTopics = [], teacher = \<lparr>teacher_email = ''ada@d-be.com''\<rparr>\<rparr>"

definition topicQ :: topic where
  "topicQ = \<lparr>topic_id = ''Q'', level = 2, subTopics = [],
              relatedTopics = [], teacher = \<lparr>teacher_email = ''ada@d-be.com''\<rparr>\<rparr>"

definition topicR :: topic where
  "topicR = \<lparr>topic_id = ''R'', level = 2, subTopics = [],
              relatedTopics = [], teacher = \<lparr>teacher_email = ''bob@d-be.com''\<rparr>\<rparr>"

text \<open>
  A level-1 topic whose references are dangling (\<open>Z\<close>), to itself, to its own level (\<open>A\<close>)
  and to a higher level (\<open>B\<close>).
\<close>

definition topicC :: topic where
  "topicC = \<lparr>topic_id = ''C'', level = 1, subTopics = [\<lparr>subTopic_id = ''C-1''\<rparr>],
              relatedTopics = [''Z'', ''C'', ''A'', ''B''],
              teacher = \<lparr>teacher_email = ''bob@d-be.com''\<rparr>\<rparr>"

text \<open>
  Two topics of level 1 and two of level 2 whose links cross in input order: \<open>U\<close> unlocks
  \<open>Y\<close> and \<open>X\<close>, \<open>V\<close> unlocks \<open>X\<close>, and the input lists \<open>X\<close> before \<open>Y\<close>.
\<close>

definition topicU :: topic where
  "topicU = \<lparr>topic_id = ''U'', level = 1, subTopics = [],
              relatedTopics = [''Y'', ''X''], teacher = \<lparr>teacher_email = ''ada@d-be.com''\<rparr>\<rparr>"

definition topicV :: topic where
  "topicV = \<lparr>topic_id = ''V'', level = 1, subTopics = [],
              relatedTopics = [''X''], teacher = \<lparr>teacher_email = ''ada@d-be.com''\<rparr>\<rparr>"

definition topicX :: topic where
  "topicX = \<lparr>topic_id = ''X'', level = 2, subTopics = [],
              relatedTopics = [], teacher = \<lparr>teacher_email = ''bob@d-be.com''\<rparr>\<rparr>"

definition topicY :: topic where
  "topicY = \<lparr>topic_id = ''Y'', level = 2, subTopics = [],
              relatedTopics = [], teacher = \<lparr>teacher_email = ''bob@d-be.com''\<rparr>\<rparr>"

text \<open>Twelve unrelated topics of level 1.\<close>

definition plainTopic :: "string \<Rightarrow> topic" where
  "plainTopic i = \<lparr>topic_id = i, level = 1, subTopics = [], relatedTopics = [],
                    teacher = \<lparr>teacher_email = ''ada@d-be.com''\<rparr>\<rparr>"

definition twelveTopics :: "topic list" where
  "twelveTopics = map plainTopic
     [''t01'', ''t02'', ''t03'', ''t04'', ''t05'', ''t06'',
      ''t07'', ''t08'', ''t09'', ''t10'', ''t11'', ''t12'']"

section \<open>Completion statistics\<close>

lemma length_filter_insert_mono:
  "length (filter (\<lambda>st. f st \<in> C) xs) \<le> length (filter (\<lambda>st. f st \<in> insert a C) xs)"
  by (induction xs) auto

text \<open>
  Claim C7.  Adding an id to the completion set never decreases a topic's completion
  percent; a topic is complete exactly when it has at least one submodule and its percent
  is 100; a topic without submodules has percent 0.
\<close>

theorem completion_percent_monotone:
  "percent (getProgressStats C t) \<le> percent (getProgressStats (insert a C) t)
   \<and> (isComplete C t \<longleftrightarrow> (length (subTopics t) \<ge> 1 \<and> percent (getProgressStats C t) = 100))
   \<and> (subTopics t = [] \<longrightarrow> percent (getProgressStats C t) = 0)"
proof -
  have mono: "percent (getProgressStats C t) \<le> percent (getProgressStats (insert a C) t)"
  proof (cases "subTopics t = []")
    case True
    then show ?thesis by (simp add: getProgressStats_def)
  next
    case False
    have "(of_nat (length (filter (\<lambda>st. subTopic_id st \<in> C) (subTopics t))) :: rat)
          \<le> of_nat (length (filter (\<lambda>st. subTopic_id st \<in> insert a C) (subTopics t)))"
      using length_filter_insert_mono [of subTopic_id C "subTopics t" a] by simp
    with False show ?thesis
      by (simp add: getProgressStats_def Let_def divide_right_mono)
  qed
  have compl: "isComplete C t \<longleftrightarrow> (length (subTopics t) \<ge> 1 \<and> percent (getProgressStats C t) = 100)"
    by (cases "subTopics t = []") (auto simp: isComplete_def getProgressStats_def Let_def Suc_le_eq)
  have zero: "subTopics t = [] \<longrightarrow> percent (getProgressStats C t) = 0"
    by (simp add: getProgressStats_def)
  from mono compl zero show ?thesis by blast
qed

theorem completion_percent_monotone_witness:
  "percent (getProgressStats {''a1''}
      \<lparr>topic_id = ''a'', level = 1,
       subTopics = [\<lparr>subTopic_id = ''a1''\<rparr>, \<lparr>subTopic_id = ''a2''\<rparr>],
       relatedTopics = [], teacher = \<lparr>teacher_email = ''t@d-be.com''\<rparr>\<rparr>) = 50
   \<and> percent (getProgressStats (insert ''a2'' {''a1''})
      \<lparr>topic_id = ''a'', level = 1,
       subTopics = [\<lparr>subTopic_id = ''a1''\<rparr>, \<lparr>subTopic_id = ''a2''\<rparr>],
       relatedTopics = [], teacher = \<lparr>teacher_email = ''t@d-be.com''\<rparr>\<rparr>) = 100
   \<and> isComplete (insert ''a2'' {''a1''})
      \<lparr>topic_id = ''a'', level = 1,
       subTopics = [\<lparr>subTopic_id = ''a1''\<rparr>, \<lparr>subTopic_id = ''a2''\<rparr>],
       relatedTopics = [], teacher = \<lparr>teacher_email = ''t@d-be.com''\<rparr>\<rparr>
   \<and> percent (getProgressStats {''a1''}
      \<lparr>topic_id = ''b'', level = 2, subTopics = [],
       relatedTopics = [], teacher = \<lparr>teacher_email = ''t@d-be.com''\<rparr>\<rparr>) = 0"
  using completion_percent_monotone
    [of "{''a1''}" "\<lparr>topic_id = ''a'', level = 1,
       subTopics = [\<lparr>subTopic_id = ''a1''\<rparr>, \<lparr>subTopic_id = ''a2''\<rparr>],
       relatedTopics = [], teacher = \<lparr>teacher_email = ''t@d-be.com''\<rparr>\<rparr>" "''a2''"]
    completion_percent_monotone
    [of "insert ''a2'' {''a1''}" "\<lparr>topic_id = ''a'', level = 1,
       subTopics = [\<lparr>subTopic_id = ''a1''\<rparr>, \<lparr>subTopic_id = ''a2''\<rparr>],
       relatedTopics = [], teacher = \<lparr>teacher_email = ''t@d-be.com''\<rparr>\<rparr>" "''a2''"]
    completion_percent_monotone
    [of "{''a1''}" "\<lparr>topic_id = ''b'', level = 2, subTopics = [],
       relatedTopics = [], teacher = \<lparr>teacher_email = ''t@d-be.com''\<rparr>\<rparr>" "''a2''"]
  by (simp add: getProgressStats_def)

section \<open>The loops and the level record\<close>

lemma fold_addToLevels_nodes:
  "levelNodes (fst (fold addToLevels ts (lv, m))) l = levelNodes lv l @ bucket ts l"
  by (induction ts arbitrary: lv m) (auto simp: addToLevels_def levelNodes_def bucket_def)

lemma fold_addToLevels_max:
  "snd (fold addToLevels ts (lv, m)) = Max (set (m # map level ts))"
proof (induction ts arbitrary: lv m)
  case Nil
  then show ?case by simp
next
  case (Cons t ts)
  have "Max (insert (max m (level t)) (level ` set ts)) = Max (insert m (insert (level t) (level ` set ts)))"
    by (cases "level ` set ts = {}") (simp_all add: max.assoc)
  moreover have "(if m < level t then level t else m) = max m (level t)"
    by (simp add: max_def)
  ultimately show ?case using Cons [of _ "max m (level t)"]
    by (simp add: addToLevels_def)
qed

lemma buildLevels_nodes: "levelNodes (fst (buildLevels topics)) l = bucket topics l"
  using fold_addToLevels_nodes [of topics Map.empty 0 l]
  by (simp add: buildLevels_def levelNodes_def)

lemma buildLevels_max: "snd (buildLevels topics) = Max (set (0 # map level topics))"
  by (simp add: buildLevels_def fold_addToLevels_max)

lemma level_le_maxLevel: "t \<in> set topics \<Longrightarrow> level t \<le> snd (buildLevels topics)"
  by (simp add: buildLevels_max)

lemma forUp_fold: "forUp lvl hi body s = fold body [lvl..hi] s"
proof (induction lvl hi body s rule: forUp.induct)
  case (1 lvl hi body s)
  show ?case
  proof (cases "lvl \<le> hi")
    case True
    then have "[lvl..hi] = lvl # [lvl + 1..hi]" by (simp add: upto_rec1)
    with True 1 show ?thesis by (simp add: forUp.simps [of lvl])
  next
    case False
    then show ?thesis by (simp add: forUp.simps [of lvl])
  qed
qed

lemma forDown_fold: "forDown lvl lo body s = fold body (rev [lo..lvl]) s"
proof (induction lvl lo body s rule: forDown.induct)
  case (1 lvl lo body s)
  show ?case
  proof (cases "lo \<le> lvl")
    case True
    then have "[lo..lvl] = [lo..lvl - 1] @ [lvl]" by (simp add: upto_rec2)
    with True 1 show ?thesis by (simp add: forDown.simps [of lvl])
  next
    case False
    then show ?thesis by (simp add: forDown.simps [of lvl])
  qed
qed

lemma tenPasses_funpow: "tenPasses i body s = (body ^^ (10 - i)) s"
proof (induction i body s rule: tenPasses.induct)
  case (1 i body s)
  show ?case
  proof (cases "i < 10")
    case True
    then have "10 - i = Suc (10 - (i + 1))" by simp
    have "(body ^^ Suc (10 - (i + 1))) s = (body ^^ (10 - (i + 1))) (body s)"
      by (rule funpow_Suc_right [THEN fun_cong, simplified o_def])
    with True 1 \<open>10 - i = Suc (10 - (i + 1))\<close> show ?thesis
      by (simp add: tenPasses.simps [of i] del: funpow.simps)
  next
    case False
    then show ?thesis by (simp add: tenPasses.simps [of i])
  qed
qed

lemma fold_invariant:
  "P s \<Longrightarrow> (\<And>l s. l \<in> set ls \<Longrightarrow> P s \<Longrightarrow> P (body l s)) \<Longrightarrow> P (fold body ls s)"
  by (induction ls arbitrary: s) auto

lemma funpow_invariant: "P s \<Longrightarrow> (\<And>s. P s \<Longrightarrow> P (f s)) \<Longrightarrow> P ((f ^^ n) s)"
  by (induction n) auto

lemma computeLayout_invariant:
  assumes init: "P (initialPositions h (fst (buildLevels topics)) (snd (buildLevels topics)))"
    and fwd: "\<And>l pos. 2 \<le> l \<Longrightarrow> l \<le> snd (buildLevels topics) \<Longrightarrow> P pos \<Longrightarrow> P (levelPass forwardWeight h topics (fst (buildLevels topics)) l pos)"
    and bwd: "\<And>l pos. 1 \<le> l \<Longrightarrow> l < snd (buildLevels topics) \<Longrightarrow> P pos \<Longrightarrow> P (levelPass backwardWeight h topics (fst (buildLevels topics)) l pos)"
  shows "P (computeLayout topics h)"
proof -
  have step: "P (refinementPass h topics (fst (buildLevels topics)) (snd (buildLevels topics)) pos)"
    if "P pos" for pos
  proof -
    have "P (fold (levelPass forwardWeight h topics (fst (buildLevels topics)))
               [2..snd (buildLevels topics)] pos)"
      using that by (rule fold_invariant [where P = P]) (simp add: fwd)
    then show ?thesis
      unfolding refinementPass_def forUp_fold forDown_fold
      by (rule fold_invariant [where P = P]) (simp add: bwd)
  qed
  show ?thesis
    unfolding computeLayout_def tenPasses_funpow
    by (simp add: case_prod_unfold Let_def) (rule funpow_invariant [where P = P, OF init step])
qed

lemma setPositions_other:
  "k \<notin> topic_id ` set ns \<Longrightarrow> setPositions sx sy i ns m k = m k"
  by (induction ns arbitrary: i m) auto

lemma dom_setPositions: "dom (setPositions sx sy i ns m) = dom m \<union> topic_id ` set ns"
  by (induction ns arbitrary: i m) auto

lemma setPositions_nth:
  "distinct (map topic_id ns) \<Longrightarrow> j < length ns \<Longrightarrow>
   setPositions sx sy i ns m (topic_id (ns ! j))
     = Some \<lparr>pos_x = sx, pos_y = sy + of_nat (i + j) * NODE_SPACING\<rparr>"
proof (induction ns arbitrary: i j m)
  case Nil
  then show ?case by simp
next
  case (Cons n ns)
  show ?case
  proof (cases j)
    case 0
    from Cons.prems have "topic_id n \<notin> topic_id ` set ns" by simp
    with 0 show ?thesis by (simp add: setPositions_other)
  next
    case (Suc j')
    with Cons.prems have "distinct (map topic_id ns)" "j' < length ns" by simp_all
    from Cons.IH [OF this] Suc show ?thesis by simp
  qed
qed

lemma dom_applySpacing: "dom (applySpacing h ns sx m) = dom m \<union> topic_id ` set ns"
  by (simp add: applySpacing_def dom_setPositions)

lemma applySpacing_other: "k \<notin> topic_id ` set ns \<Longrightarrow> applySpacing h ns sx m k = m k"
  by (simp add: applySpacing_def setPositions_other)

lemma applySpacing_nth:
  "distinct (map topic_id ns) \<Longrightarrow> j < length ns \<Longrightarrow>
   applySpacing h ns sx m (topic_id (ns ! j))
     = Some \<lparr>pos_x = sx, pos_y = slotY h (length ns) j\<rparr>"
  by (simp add: applySpacing_def setPositions_nth slotY_def NODE_SPACING_def)

lemma applySpacing_placed:
  "distinct (map topic_id ns) \<Longrightarrow>
   placed h lvl ns (applySpacing h ns (100 + (of_int lvl - 1) * LEVEL_SPACING) m)"
  by (simp add: placed_def applySpacing_nth columnX_def LEVEL_SPACING_def)

lemma applySpacing_frame:
  "topic_id ` set ns \<inter> topic_id ` set order = {} \<Longrightarrow> placed h l order m \<Longrightarrow>
   placed h l order (applySpacing h ns sx m)"
proof -
  assume disj: "topic_id ` set ns \<inter> topic_id ` set order = {}" and pl: "placed h l order m"
  have "applySpacing h ns sx m (topic_id (order ! i)) = m (topic_id (order ! i))"
    if "i < length order" for i
  proof (rule applySpacing_other)
    from that have "topic_id (order ! i) \<in> topic_id ` set order" by simp
    with disj show "topic_id (order ! i) \<notin> topic_id ` set ns" by blast
  qed
  with pl show ?thesis by (simp add: placed_def)
qed

lemma perm_bucket_set:
  "mset ns = mset (bucket topics l) \<Longrightarrow> set ns = {t \<in> set topics. level t = l}"
proof -
  assume "mset ns = mset (bucket topics l)"
  then have "set ns = set (bucket topics l)" by (rule mset_eq_setD)
  then show ?thesis by (simp add: bucket_def)
qed

lemma perm_bucket_distinct:
  assumes "uniqueIds topics" "mset ns = mset (bucket topics l)"
  shows "distinct (map topic_id ns)"
proof -
  have "distinct (map topic_id (bucket topics l))"
    using assms(1) by (simp add: uniqueIds_def bucket_def distinct_map_filter)
  moreover have "mset (map topic_id ns) = mset (map topic_id (bucket topics l))"
    using assms(2) by simp
  ultimately show ?thesis using mset_eq_imp_distinct_iff by blast
qed

lemma uniqueIds_inj: "uniqueIds topics \<Longrightarrow> a \<in> set topics \<Longrightarrow> b \<in> set topics \<Longrightarrow>
  topic_id a = topic_id b \<Longrightarrow> a = b"
  by (auto simp: uniqueIds_def distinct_map dest: inj_onD)

lemma perm_bucket_disjoint:
  assumes "uniqueIds topics" "mset ns = mset (bucket topics l')"
    "mset order = mset (bucket topics l)" "l \<noteq> l'"
  shows "topic_id ` set ns \<inter> topic_id ` set order = {}"
proof -
  have "False" if "a \<in> set ns" "b \<in> set order" "topic_id a = topic_id b" for a b
  proof -
    from that assms have "a \<in> set topics" "level a = l'" "b \<in> set topics" "level b = l"
      by (simp_all add: perm_bucket_set)
    with that(3) assms(1,4) show False by (auto dest: uniqueIds_inj)
  qed
  then show ?thesis by auto
qed

lemma columns_step:
  assumes u: "uniqueIds topics" and p: "mset ns = mset (bucket topics l')"
    and c: "columns h topics S m"
  shows "columns h topics (insert l' S) (applySpacing h ns (100 + (of_int l' - 1) * LEVEL_SPACING) m)"
  unfolding columns_def
proof
  fix l assume l: "l \<in> insert l' S"
  show "\<exists>order. mset order = mset (bucket topics l)
          \<and> placed h l order (applySpacing h ns (100 + (of_int l' - 1) * LEVEL_SPACING) m)"
  proof (cases "l = l'")
    case True
    with p applySpacing_placed [OF perm_bucket_distinct [OF u p]] show ?thesis by blast
  next
    case False
    with l have "l \<in> S" by simp
    with c have "\<exists>order. mset order = mset (bucket topics l) \<and> placed h l order m"
      unfolding columns_def by (rule bspec)
    then obtain order where o: "mset order = mset (bucket topics l)" "placed h l order m"
      by blast
    from applySpacing_frame [OF perm_bucket_disjoint [OF u p o(1) False] o(2)] o(1)
    show ?thesis by blast
  qed
qed

lemma levelPass_respace:
  "\<exists>ns. mset ns = mset (bucket topics l) \<and>
     levelPass w h topics (fst (buildLevels topics)) l m
       = applySpacing h ns (100 + (of_int l - 1) * LEVEL_SPACING) m"
proof -
  let ?ns = "map fst (sort_key snd (map (\<lambda>n. (n, w topics m l n)) (bucket topics l)))"
  have "mset ?ns = mset (bucket topics l)"
    by (simp add: multiset.map_comp comp_def)
  then show ?thesis
    by (intro exI [of _ ?ns]) (simp add: levelPass_def Let_def buildLevels_nodes)
qed

lemma columns_levelPass:
  assumes "uniqueIds topics" "columns h topics S m"
  shows "columns h topics S (levelPass w h topics (fst (buildLevels topics)) l m)"
proof -
  from levelPass_respace [of topics l w h m] obtain ns where
    ns: "mset ns = mset (bucket topics l)"
      "levelPass w h topics (fst (buildLevels topics)) l m
         = applySpacing h ns (100 + (of_int l - 1) * LEVEL_SPACING) m" by blast
  from columns_step [OF assms(1) ns(1) assms(2)] ns(2)
  show ?thesis by (simp add: columns_def)
qed

lemma columns_fold_initial:
  assumes "uniqueIds topics"
  shows "columns h topics S m \<Longrightarrow>
    columns h topics (S \<union> set ls)
      (fold (\<lambda>lvl. applySpacing h (levelNodes (fst (buildLevels topics)) lvl)
                     (100 + (of_int lvl - 1) * LEVEL_SPACING)) ls m)"
proof (induction ls arbitrary: S m)
  case Nil
  then show ?case by simp
next
  case (Cons l ls)
  from columns_step [OF assms refl Cons.prems, of l]
  have "columns h topics (insert l S)
          (applySpacing h (levelNodes (fst (buildLevels topics)) l)
             (100 + (of_int l - 1) * LEVEL_SPACING) m)"
    by (simp add: buildLevels_nodes)
  from Cons.IH [OF this] show ?case by simp
qed

lemma columns_initial:
  assumes "uniqueIds topics"
  shows "columns h topics {1..snd (buildLevels topics)}
           (initialPositions h (fst (buildLevels topics)) (snd (buildLevels topics)))"
proof -
  have "columns h topics {} Map.empty" by (simp add: columns_def)
  from columns_fold_initial [OF assms this, of "[1..snd (buildLevels topics)]"]
  show ?thesis by (simp add: initialPositions_def forUp_fold)
qed

lemma columns_computeLayout:
  assumes "uniqueIds topics"
  shows "columns h topics {1..snd (buildLevels topics)} (computeLayout topics h)"
  by (rule computeLayout_invariant [where P = "columns h topics {1..snd (buildLevels topics)}"])
     (simp_all add: columns_initial columns_levelPass assms)

lemma layout_position:
  assumes u: "uniqueIds topics" and p: "positiveLevels topics" and t: "t \<in> set topics"
  shows "\<exists>order i. mset order = mset (bucket topics (level t)) \<and> i < length order \<and> order ! i = t \<and>
     computeLayout topics h (topic_id t)
       = Some \<lparr>pos_x = columnX (level t), pos_y = slotY h (length order) i\<rparr>"
proof -
  from p t have "1 \<le> level t" by (simp add: positiveLevels_def)
  with level_le_maxLevel [OF t] have "level t \<in> {1..snd (buildLevels topics)}" by simp
  with columns_computeLayout [OF u, of h]
  have "\<exists>order. mset order = mset (bucket topics (level t))
          \<and> placed h (level t) order (computeLayout topics h)"
    unfolding columns_def by (rule bspec)
  then obtain order where
    o: "mset order = mset (bucket topics (level t))" "placed h (level t) order (computeLayout topics h)"
    by blast
  from o(1) t have "t \<in> set order" by (simp add: perm_bucket_set)
  then obtain i where i: "i < length order" "order ! i = t" by (auto simp: in_set_conv_nth)
  with o show ?thesis unfolding placed_def by blast
qed

section \<open>Coverage and ordering of the position map\<close>

lemma dom_fold_initial:
  "dom (fold (\<lambda>lvl. applySpacing h (f lvl) (g lvl)) ls m)
     = dom m \<union> (\<Union>l \<in> set ls. topic_id ` set (f l))"
  by (induction ls arbitrary: m) (auto simp: dom_applySpacing)

lemma dom_initialPositions:
  "dom (initialPositions h (fst (buildLevels topics)) (snd (buildLevels topics)))
     = (\<Union>l \<in> {1..snd (buildLevels topics)}. topic_id ` set (bucket topics l))"
  by (simp add: initialPositions_def forUp_fold dom_fold_initial buildLevels_nodes)

lemma initial_covers:
  assumes "positiveLevels topics" "t \<in> set topics"
  shows "topic_id t \<in> dom (initialPositions h (fst (buildLevels topics)) (snd (buildLevels topics)))"
proof -
  from assms have "1 \<le> level t" by (simp add: positiveLevels_def)
  with level_le_maxLevel [OF assms(2)] have "level t \<in> {1..snd (buildLevels topics)}" by simp
  moreover from assms(2) have "topic_id t \<in> topic_id ` set (bucket topics (level t))"
    by (simp add: bucket_def)
  ultimately show ?thesis unfolding dom_initialPositions by blast
qed

lemma dom_levelPass:
  "dom m \<subseteq> dom (levelPass w h topics levels l m)"
  by (simp add: levelPass_def Let_def dom_applySpacing)

lemma layout_covers:
  assumes "positiveLevels topics" "t \<in> set topics"
  shows "topic_id t \<in> dom (computeLayout topics h)"
proof (rule computeLayout_invariant [where P = "\<lambda>m. topic_id t \<in> dom m"])
  show "topic_id t \<in> dom (initialPositions h (fst (buildLevels topics)) (snd (buildLevels topics)))"
    by (rule initial_covers [OF assms])
qed (use dom_levelPass in blast)+

lemma mkNode_topic: "node_topic (mkNode C m t) = t"
  by (simp add: mkNode_def Let_def)

lemma mkNode_xy:
  "m (topic_id t) = Some p \<Longrightarrow> node_x (mkNode C m t) = pos_x p \<and> node_y (mkNode C m t) = pos_y p"
  by (simp add: mkNode_def Let_def)

lemma mkNode_complete: "node_complete (mkNode C m t) = isComplete C t"
  by (auto simp: mkNode_def isComplete_def getProgressStats_def Let_def)

lemma insort_key_pairs:
  "\<forall>p \<in> set ps. snd p = f (fst p) \<Longrightarrow>
   map fst (insort_key snd (a, f a) ps) = insort_key f a (map fst ps)"
  by (induction ps) auto

lemma sort_key_pairs:
  "map fst (sort_key snd (map (\<lambda>n. (n, f n)) xs)) = sort_key f xs"
proof (induction xs)
  case Nil
  then show ?case by simp
next
  case (Cons a xs)
  have "\<forall>p \<in> set (sort_key snd (map (\<lambda>n. (n, f n)) xs)). snd p = f (fst p)" by auto
  from insort_key_pairs [OF this] Cons show ?case by simp
qed

lemma levelPass_sort_key:
  "levelPass w h topics (fst (buildLevels topics)) l m
     = applySpacing h (sort_key (w topics m l) (bucket topics l))
         (100 + (of_int l - 1) * LEVEL_SPACING) m"
  by (simp add: levelPass_def Let_def buildLevels_nodes sort_key_pairs)

lemma forwardWeight_no_parents:
  "level n = l \<Longrightarrow> parentsOf topics n = [] \<Longrightarrow> forwardWeight topics m l n = getY m (topic_id n)"
  by (simp add: forwardWeight_def parentsOf_def Let_def conj_commute)

lemma backwardWeight_no_children:
  "level n = l \<Longrightarrow> childrenOf topics n = [] \<Longrightarrow> backwardWeight topics m l n = getY m (topic_id n)"
  by (simp add: backwardWeight_def childrenOf_def Let_def conj_commute)

lemma slotY_mono: "i \<le> j \<Longrightarrow> slotY h n i \<le> slotY h n j"
  by (simp add: slotY_def)

lemma placed_sorted:
  assumes "placed h l ns m"
  shows "sorted (map (\<lambda>n. getY m (topic_id n)) ns)"
proof -
  have "getY m (topic_id (ns ! i)) = slotY h (length ns) i" if "i < length ns" for i
    using assms that by (simp add: placed_def getY_def)
  then show ?thesis
    by (simp add: sorted_iff_nth_mono slotY_mono)
qed

lemma isolated_levelPass:
  assumes w: "\<And>n. n \<in> set (bucket topics l) \<Longrightarrow> w topics m l n = getY m (topic_id n)"
    and p: "placed h l (bucket topics l) m"
  shows "levelPass w h topics (fst (buildLevels topics)) l m
           = applySpacing h (bucket topics l) (100 + (of_int l - 1) * LEVEL_SPACING) m"
proof -
  have "map (w topics m l) (bucket topics l) = map (\<lambda>n. getY m (topic_id n)) (bucket topics l)"
    using w by simp
  with placed_sorted [OF p] have "sorted (map (w topics m l) (bucket topics l))"
    by (simp only:)
  then have "sort_key (w topics m l) (bucket topics l) = bucket topics l"
    by (rule sort_key_id_if_sorted)
  then show ?thesis by (simp add: levelPass_sort_key)
qed

lemma placed_bucket_levelPass:
  assumes u: "uniqueIds topics"
    and w: "\<And>n. n \<in> set (bucket topics l) \<Longrightarrow> w topics m l n = getY m (topic_id n)"
    and p: "placed h l (bucket topics l) m"
  shows "placed h l (bucket topics l) (levelPass w h topics (fst (buildLevels topics)) l' m)"
proof (cases "l' = l")
  case True
  have "distinct (map topic_id (bucket topics l))" by (rule perm_bucket_distinct [OF u refl])
  from applySpacing_placed [OF this] isolated_levelPass [of topics l w m h, OF w p] True
  show ?thesis by simp
next
  case False
  from levelPass_respace [of topics l' w h m] obtain ns where
    ns: "mset ns = mset (bucket topics l')"
      "levelPass w h topics (fst (buildLevels topics)) l' m
         = applySpacing h ns (100 + (of_int l' - 1) * LEVEL_SPACING) m" by blast
  from False have "l \<noteq> l'" by simp
  from applySpacing_frame [OF perm_bucket_disjoint [OF u ns(1) refl this] p] ns(2)
  show ?thesis by simp
qed

lemma placed_bucket_fold_initial:
  assumes u: "uniqueIds topics"
  shows "l \<in> set ls \<or> placed h l (bucket topics l) m \<Longrightarrow>
    placed h l (bucket topics l)
      (fold (\<lambda>lvl. applySpacing h (levelNodes (fst (buildLevels topics)) lvl)
                     (100 + (of_int lvl - 1) * LEVEL_SPACING)) ls m)"
proof (induction ls arbitrary: m)
  case Nil
  then show ?case by simp
next
  case (Cons l' ls)
  let ?m' = "applySpacing h (bucket topics l') (100 + (of_int l' - 1) * LEVEL_SPACING) m"
  have "l \<in> set ls \<or> placed h l (bucket topics l) ?m'"
  proof (cases "l' = l")
    case True
    have "distinct (map topic_id (bucket topics l))" by (rule perm_bucket_distinct [OF u refl])
    from applySpacing_placed [OF this] True show ?thesis by simp
  next
    case False
    then have ne: "l \<noteq> l'" by simp
    show ?thesis
    proof (cases "l \<in> set ls")
      case True
      then show ?thesis by simp
    next
      case False
      with Cons.prems ne have "placed h l (bucket topics l) m" by simp
      from applySpacing_frame [OF perm_bucket_disjoint [OF u refl refl ne] this]
      show ?thesis by simp
    qed
  qed
  from Cons.IH [OF this] show ?case by (simp add: buildLevels_nodes)
qed

lemma placed_bucket_initial:
  assumes "uniqueIds topics" "1 \<le> l" "l \<le> snd (buildLevels topics)"
  shows "placed h l (bucket topics l)
           (initialPositions h (fst (buildLevels topics)) (snd (buildLevels topics)))"
proof -
  from assms(2,3) have "l \<in> set [1..snd (buildLevels topics)]" by simp
  then have "l \<in> set [1..snd (buildLevels topics)] \<or> placed h l (bucket topics l) Map.empty" ..
  from placed_bucket_fold_initial [OF assms(1) this]
  show ?thesis by (simp add: initialPositions_def forUp_fold)
qed

lemma isolated_level_keeps_order:
  assumes u: "uniqueIds topics" and iso: "isolatedLevel topics l"
    and l: "1 \<le> l" "l \<le> snd (buildLevels topics)"
  shows "placed h l (bucket topics l) (computeLayout topics h)"
proof (rule computeLayout_invariant [where P = "placed h l (bucket topics l)"])
  show "placed h l (bucket topics l)
          (initialPositions h (fst (buildLevels topics)) (snd (buildLevels topics)))"
    by (rule placed_bucket_initial [OF u l])
next
  fix l' m assume p: "placed h l (bucket topics l) m"
  have "forwardWeight topics m l n = getY m (topic_id n)" if "n \<in> set (bucket topics l)" for n
    using that iso by (intro forwardWeight_no_parents) (auto simp: isolatedLevel_def bucket_def)
  from placed_bucket_levelPass [of topics l forwardWeight m h l', OF u this p]
  show "placed h l (bucket topics l) (levelPass forwardWeight h topics (fst (buildLevels topics)) l' m)"
    by simp
next
  fix l' m assume p: "placed h l (bucket topics l) m"
  have "backwardWeight topics m l n = getY m (topic_id n)" if "n \<in> set (bucket topics l)" for n
    using that iso by (intro backwardWeight_no_children) (auto simp: isolatedLevel_def bucket_def)
  from placed_bucket_levelPass [of topics l backwardWeight m h l', OF u this p]
  show "placed h l (bucket topics l) (levelPass backwardWeight h topics (fst (buildLevels topics)) l' m)"
    by simp
qed

section \<open>Every topic is positioned\<close>

text \<open>
  Claim C10.  When every level is a positive integer, every topic id has an entry in the
  position map after the initial placement; a pass never removes an entry, so the lookups
  of the refinement passes find one; and in the finished layout the node objects take
  their coordinates from the entry, not from the fallback.
\<close>

theorem all_topics_positioned:
  assumes "positiveLevels topics"
  shows "(\<forall>t \<in> set topics. \<exists>p.
            initialPositions h (fst (buildLevels topics)) (snd (buildLevels topics)) (topic_id t) = Some p)
       \<and> (\<forall>w l m. dom m \<subseteq> dom (levelPass w h topics (fst (buildLevels topics)) l m))
       \<and> (\<forall>t \<in> set topics. \<exists>p. computeLayout topics h (topic_id t) = Some p
             \<and> node_x (mkNode C (computeLayout topics h) t) = pos_x p
             \<and> node_y (mkNode C (computeLayout topics h) t) = pos_y p)"
proof (intro conjI ballI allI)
  fix t assume "t \<in> set topics"
  with initial_covers [OF assms, of t h]
  show "\<exists>p. initialPositions h (fst (buildLevels topics)) (snd (buildLevels topics)) (topic_id t) = Some p"
    by blast
next
  fix w l m
  show "dom m \<subseteq> dom (levelPass w h topics (fst (buildLevels topics)) l m)"
    by (rule dom_levelPass)
next
  fix t assume "t \<in> set topics"
  with layout_covers [OF assms, of t h] obtain p where "computeLayout topics h (topic_id t) = Some p"
    by blast
  then show "\<exists>p. computeLayout topics h (topic_id t) = Some p
             \<and> node_x (mkNode C (computeLayout topics h) t) = pos_x p
             \<and> node_y (mkNode C (computeLayout topics h) t) = pos_y p"
    by (simp add: mkNode_xy)
qed

theorem all_topics_positioned_witness:
  "positiveLevels [topicA, topicB]
   \<and> (\<exists>p. initialPositions 800 (fst (buildLevels [topicA, topicB]))
             (snd (buildLevels [topicA, topicB])) ''B'' = Some p)
   \<and> (\<exists>p. computeLayout [topicA, topicB] 800 ''A'' = Some p
          \<and> node_y (mkNode {} (computeLayout [topicA, topicB] 800) topicA) = pos_y p)"
proof -
  have h: "positiveLevels [topicA, topicB]"
    by (simp add: positiveLevels_def topicA_def topicB_def)
  from all_topics_positioned [OF h, of 800 "{}"]
  have "\<exists>p. initialPositions 800 (fst (buildLevels [topicA, topicB]))
             (snd (buildLevels [topicA, topicB])) (topic_id topicB) = Some p"
    and "\<exists>p. computeLayout [topicA, topicB] 800 (topic_id topicA) = Some p
          \<and> node_y (mkNode {} (computeLayout [topicA, topicB] 800) topicA) = pos_y p"
    by auto
  moreover have "topic_id topicA = ''A''" "topic_id topicB = ''B''"
    by (simp_all add: topicA_def topicB_def)
  ultimately show ?thesis using h by simp
qed

section \<open>Columns and slots\<close>

text \<open>
  Claim C3.  For a topic list with unique ids and positive levels, the x-coordinate of
  every node is \<open>100 + (level - 1) * 500\<close>; so two topics of the same level share x, and x
  grows strictly with the level.
\<close>

theorem level_monotonic_x:
  assumes u: "uniqueIds topics" and p: "positiveLevels topics"
  shows "(\<forall>n \<in> set (buildNodes C (computeLayout topics h) topics).
            node_x n = 100 + (of_int (level (node_topic n)) - 1) * 500)
       \<and> (\<forall>a \<in> set (buildNodes C (computeLayout topics h) topics).
          \<forall>b \<in> set (buildNodes C (computeLayout topics h) topics).
            (level (node_topic a) = level (node_topic b) \<longrightarrow> node_x a = node_x b)
          \<and> (level (node_topic a) < level (node_topic b) \<longrightarrow> node_x a < node_x b))"
proof -
  have x: "node_x n = 100 + (of_int (level (node_topic n)) - 1) * 500"
    if "n \<in> set (buildNodes C (computeLayout topics h) topics)" for n
  proof -
    from that obtain t where t: "t \<in> set topics" "n = mkNode C (computeLayout topics h) t"
      by (auto simp: buildNodes_def)
    from layout_position [OF u p t(1), of h] obtain q where
      "computeLayout topics h (topic_id t) = Some q" "pos_x q = columnX (level t)"
      by auto
    with t(2) show ?thesis by (simp add: mkNode_xy mkNode_topic columnX_def)
  qed
  then show ?thesis by simp
qed

theorem level_monotonic_x_witness:
  "uniqueIds [topicA, topicB] \<and> positiveLevels [topicA, topicB]
   \<and> node_x (mkNode {} (computeLayout [topicA, topicB] 800) topicA) = 100
   \<and> node_x (mkNode {} (computeLayout [topicA, topicB] 800) topicB) = 600"
proof -
  have u: "uniqueIds [topicA, topicB]"
    by (simp add: uniqueIds_def topicA_def topicB_def)
  have p: "positiveLevels [topicA, topicB]"
    by (simp add: positiveLevels_def topicA_def topicB_def)
  have "level topicA = 1" "level topicB = 2" by (simp_all add: topicA_def topicB_def)
  with level_monotonic_x [OF u p, of "{}" 800] u p show ?thesis
    by (simp add: buildNodes_def mkNode_topic)
qed

text \<open>
  Claim C4.  For a topic list with unique ids and positive levels: the nodes of every
  level, taken in some order, sit at \<open>height/2 - (N*280)/2 + 140 + i*280\<close>; a level none of
  whose nodes has a parent or a child keeps the input order; and every pass sorts the level
  in its input order, so nodes of equal weight keep their relative input order.
\<close>

theorem level_spacing_and_order:
  assumes u: "uniqueIds topics" and p: "positiveLevels topics"
  shows "(\<forall>l. \<exists>order. mset order = mset (bucket topics l) \<and>
            (\<forall>i < length order. \<exists>q. computeLayout topics h (topic_id (order ! i)) = Some q \<and>
               pos_y q = h / 2 - (of_nat (length order) * 280) / 2 + 140 + of_nat i * 280))
       \<and> (\<forall>l. isolatedLevel topics l \<longrightarrow>
            (\<forall>i < length (bucket topics l). \<exists>q.
               computeLayout topics h (topic_id (bucket topics l ! i)) = Some q \<and>
               pos_y q = h / 2 - (of_nat (length (bucket topics l)) * 280) / 2 + 140 + of_nat i * 280))
       \<and> (\<forall>w l m. \<exists>order.
            levelPass w h topics (fst (buildLevels topics)) l m
              = applySpacing h order (100 + (of_int l - 1) * LEVEL_SPACING) m \<and>
            (\<forall>k. filter (\<lambda>n. w topics m l n = k) order
                   = filter (\<lambda>n. w topics m l n = k) (bucket topics l)))"
proof (intro conjI allI impI)
  fix l
  show "\<exists>order. mset order = mset (bucket topics l) \<and>
            (\<forall>i < length order. \<exists>q. computeLayout topics h (topic_id (order ! i)) = Some q \<and>
               pos_y q = h / 2 - (of_nat (length order) * 280) / 2 + 140 + of_nat i * 280)"
  proof (cases "l \<in> {1..snd (buildLevels topics)}")
    case True
    with columns_computeLayout [OF u, of h]
    have "\<exists>order. mset order = mset (bucket topics l) \<and> placed h l order (computeLayout topics h)"
      unfolding columns_def by (rule bspec)
    then show ?thesis by (auto simp: placed_def slotY_def)
  next
    case False
    have "bucket topics l = []"
    proof (rule ccontr)
      assume "bucket topics l \<noteq> []"
      then obtain t where "t \<in> set topics" "level t = l"
        by (auto simp: bucket_def filter_empty_conv)
      with p level_le_maxLevel [of t topics] False show False
        by (auto simp: positiveLevels_def)
    qed
    then show ?thesis by (intro exI [of _ "[]"]) simp
  qed
next
  fix l i
  assume iso: "isolatedLevel topics l" and i: "i < length (bucket topics l)"
  then have "bucket topics l ! i \<in> set (bucket topics l)" by simp
  then have "bucket topics l ! i \<in> set topics" "level (bucket topics l ! i) = l"
    by (simp_all add: bucket_def)
  with p level_le_maxLevel [of "bucket topics l ! i" topics]
  have "1 \<le> l" "l \<le> snd (buildLevels topics)" by (auto simp: positiveLevels_def)
  from isolated_level_keeps_order [OF u iso this, of h] i
  show "\<exists>q. computeLayout topics h (topic_id (bucket topics l ! i)) = Some q \<and>
          pos_y q = h / 2 - (of_nat (length (bucket topics l)) * 280) / 2 + 140 + of_nat i * 280"
    by (simp add: placed_def slotY_def)
next
  fix w l m
  show "\<exists>order. levelPass w h topics (fst (buildLevels topics)) l m
              = applySpacing h order (100 + (of_int l - 1) * LEVEL_SPACING) m \<and>
            (\<forall>k. filter (\<lambda>n. w topics m l n = k) order
                   = filter (\<lambda>n. w topics m l n = k) (bucket topics l))"
    by (intro exI [of _ "sort_key (w topics m l) (bucket topics l)"] conjI allI
          levelPass_sort_key sort_key_stable)
qed

theorem level_spacing_and_order_witness:
  "uniqueIds [topicP, topicQ, topicR] \<and> positiveLevels [topicP, topicQ, topicR]
   \<and> isolatedLevel [topicP, topicQ, topicR] 2
   \<and> (\<exists>q. computeLayout [topicP, topicQ, topicR] 800 ''P'' = Some q \<and> pos_y q = 120)
   \<and> (\<exists>q. computeLayout [topicP, topicQ, topicR] 800 ''Q'' = Some q \<and> pos_y q = 120 + 280)
   \<and> (\<exists>q. computeLayout [topicP, topicQ, topicR] 800 ''R'' = Some q \<and> pos_y q = 120 + 560)"
proof -
  let ?ts = "[topicP, topicQ, topicR]"
  have u: "uniqueIds ?ts"
    by (simp add: uniqueIds_def topicP_def topicQ_def topicR_def)
  have p: "positiveLevels ?ts"
    by (simp add: positiveLevels_def topicP_def topicQ_def topicR_def)
  have b: "bucket ?ts 2 = ?ts"
    by (simp add: bucket_def topicP_def topicQ_def topicR_def)
  have iso: "isolatedLevel ?ts 2"
    unfolding isolatedLevel_def b
    by (simp add: parentsOf_def childrenOf_def topicP_def topicQ_def topicR_def)
  from level_spacing_and_order [OF u p, of 800]
  have "\<forall>i < length (bucket ?ts 2). \<exists>q.
          computeLayout ?ts 800 (topic_id (bucket ?ts 2 ! i)) = Some q \<and>
          pos_y q = 800 / 2 - (of_nat (length (bucket ?ts 2)) * 280) / 2 + 140 + of_nat i * 280"
    using iso by blast
  then have pos: "\<exists>q. computeLayout ?ts 800 (topic_id (?ts ! i)) = Some q \<and>
          pos_y q = 120 + of_nat i * 280" if "i < 3" for i
    unfolding b using that by simp
  have "topic_id topicP = ''P''" "topic_id topicQ = ''Q''" "topic_id topicR = ''R''"
    by (simp_all add: topicP_def topicQ_def topicR_def)
  with pos [of 0] pos [of 1] pos [of 2] u p iso show ?thesis by simp
qed

section \<open>The refinement sweeps\<close>

lemma insort_key_agree:
  "f a = g a \<Longrightarrow> \<forall>x \<in> set xs. f x = g x \<Longrightarrow> insort_key f a xs = insort_key g a xs"
  by (induction xs) auto

lemma sort_key_agree:
  "\<forall>x \<in> set xs. f x = g x \<Longrightarrow> sort_key f xs = sort_key g xs"
proof (induction xs)
  case Nil
  then show ?case by simp
next
  case (Cons a xs)
  then have "sort_key f xs = sort_key g xs" by simp
  moreover from Cons.prems have "insort_key f a (sort_key g xs) = insort_key g a (sort_key g xs)"
    by (intro insort_key_agree) simp_all
  ultimately show ?case by simp
qed

lemma foldl_add_sum_list:
  "foldl (\<lambda>sum p. sum + f p) a xs = a + sum_list (map f xs)"
  by (induction xs arbitrary: a) (simp_all add: add.assoc)

lemma getY_currentY: "topic_id n \<in> dom m \<Longrightarrow> getY m (topic_id n) = currentY m n"
  by (auto simp: getY_def currentY_def)

lemma neighbour_mean:
  assumes "topic_id ` set topics \<subseteq> dom m" "set ns \<subseteq> set topics"
  shows "foldl (\<lambda>sum p. sum + getY m (topic_id p)) 0 ns / of_nat (length ns)
           = mean (map (currentY m) ns)"
proof -
  have eq: "map (\<lambda>p. getY m (topic_id p)) ns = map (currentY m) ns"
    using assms by (intro map_cong refl getY_currentY) blast
  show ?thesis unfolding foldl_add_sum_list mean_def eq by simp
qed

lemma forwardWeight_sortWeight:
  assumes c: "topic_id ` set topics \<subseteq> dom m" and n: "n \<in> set (bucket topics l)"
  shows "forwardWeight topics m l n = sortWeight m (parentsOf topics n) n"
proof -
  from n have l: "level n = l" and t: "n \<in> set topics" by (simp_all add: bucket_def)
  have f: "filter (\<lambda>p. topic_id n \<in> set (relatedTopics p) \<and> level p < l) topics = parentsOf topics n"
    by (simp add: parentsOf_def l conj_commute)
  have "set (parentsOf topics n) \<subseteq> set topics" by (auto simp: parentsOf_def)
  moreover from c t have "getY m (topic_id n) = currentY m n"
    by (intro getY_currentY) blast
  ultimately show ?thesis using neighbour_mean [OF c, of "parentsOf topics n"]
    by (simp add: forwardWeight_def f sortWeight_def Let_def)
qed

lemma backwardWeight_sortWeight:
  assumes c: "topic_id ` set topics \<subseteq> dom m" and n: "n \<in> set (bucket topics l)"
  shows "backwardWeight topics m l n = sortWeight m (childrenOf topics n) n"
proof -
  from n have l: "level n = l" and t: "n \<in> set topics" by (simp_all add: bucket_def)
  have f: "filter (\<lambda>t. topic_id t \<in> set (relatedTopics n) \<and> level t > l) topics = childrenOf topics n"
    by (simp add: childrenOf_def l conj_commute)
  have "set (childrenOf topics n) \<subseteq> set topics" by (auto simp: childrenOf_def)
  moreover from c t have "getY m (topic_id n) = currentY m n"
    by (intro getY_currentY) blast
  ultimately show ?thesis using neighbour_mean [OF c, of "childrenOf topics n"]
    by (simp add: backwardWeight_def f sortWeight_def Let_def)
qed

lemma map_upd_as_table:
  "m(k \<mapsto> v) ++ g = m ++ (map_of [(k, v)] ++ g)"
proof -
  have "m ++ (map_of [(k, v)] ++ g) = (m ++ map_of [(k, v)]) ++ g" by (rule map_add_assoc)
  also have "m ++ map_of [(k, v)] = m(k \<mapsto> v)" by simp
  finally show ?thesis by simp
qed

lemma setPositions_table:
  "setPositions sx sy i ns m
     = m ++ map_of (rev (zip (map topic_id ns)
                             (map (\<lambda>j. \<lparr>pos_x = sx, pos_y = sy + of_nat j * NODE_SPACING\<rparr>)
                                  [i..<i + length ns])))"
proof (induction ns arbitrary: i m)
  case Nil
  then show ?case by simp
next
  case (Cons n ns)
  have u: "[i..<i + length (n # ns)] = i # [Suc i..<Suc i + length ns]"
    by (subst upt_rec) simp
  show ?case
    unfolding u setPositions.simps Cons.IH
    by (simp only: list.map zip_Cons_Cons rev.simps map_of_append map_upd_as_table)
qed

lemma applySpacing_placeLevel:
  "applySpacing h ns (100 + (of_int l - 1) * LEVEL_SPACING) m = placeLevel h l ns m"
  by (simp add: applySpacing_def setPositions_table placeLevel_def columnX_def slotY_def
        LEVEL_SPACING_def NODE_SPACING_def)

lemma levelPass_resortLevel:
  assumes "\<And>n. n \<in> set (bucket topics l) \<Longrightarrow> w topics m l n = sortWeight m (nb n) n"
  shows "levelPass w h topics (fst (buildLevels topics)) l m = resortLevel h topics nb l m"
proof -
  have "sort_key (w topics m l) (bucket topics l)
          = sort_key (\<lambda>n. sortWeight m (nb n) n) (bucket topics l)"
    using assms by (intro sort_key_agree) simp
  then show ?thesis
    by (simp add: levelPass_sort_key resortLevel_def applySpacing_placeLevel)
qed

lemma fold_agree:
  "P s \<Longrightarrow> (\<And>l s. P s \<Longrightarrow> f l s = g l s) \<Longrightarrow> (\<And>l s. P s \<Longrightarrow> P (f l s)) \<Longrightarrow>
   fold f ls s = fold g ls s"
proof (induction ls arbitrary: s)
  case Nil
  then show ?case by simp
next
  case (Cons l ls)
  from Cons.prems have "P (f l s)" "f l s = g l s" by simp_all
  with Cons.IH [of "f l s"] Cons.prems(2,3) show ?case by simp
qed

lemma funpow_agree:
  "P s \<Longrightarrow> (\<And>s. P s \<Longrightarrow> f s = g s) \<Longrightarrow> (\<And>s. P s \<Longrightarrow> P (f s)) \<Longrightarrow>
   (f ^^ n) s = (g ^^ n) s"
proof (induction n)
  case 0
  then show ?case by simp
next
  case (Suc n)
  then have e: "(f ^^ n) s = (g ^^ n) s" by simp
  from Suc.prems have "P ((f ^^ n) s)" by (intro funpow_invariant [where P = P])
  with Suc.prems(2) e show ?case by simp
qed

lemma covered_levelPass:
  "topic_id ` set topics \<subseteq> dom m \<Longrightarrow>
   topic_id ` set topics \<subseteq> dom (levelPass w h topics levels l m)"
  using dom_levelPass [of m w h topics levels l] by blast

lemma refinementPass_sweepSpec:
  assumes c: "topic_id ` set topics \<subseteq> dom m"
  shows "refinementPass h topics (fst (buildLevels topics)) (snd (buildLevels topics)) m
           = sweepSpec h topics m"
proof -
  let ?P = "\<lambda>m :: posMap. topic_id ` set topics \<subseteq> dom m"
  let ?lv = "fst (buildLevels topics)"
  have top: "snd (buildLevels topics) = topLevel topics"
    by (simp add: buildLevels_max topLevel_def)
  have f: "fold (levelPass forwardWeight h topics ?lv) [2..topLevel topics] m
             = forwardPassSpec h topics m"
    unfolding forwardPassSpec_def
  proof (rule fold_agree [where P = ?P, OF c])
    fix l and s :: posMap assume "?P s"
    then show "levelPass forwardWeight h topics ?lv l s = resortLevel h topics (parentsOf topics) l s"
      by (intro levelPass_resortLevel forwardWeight_sortWeight)
  next
    fix l and s :: posMap assume "?P s"
    then show "?P (levelPass forwardWeight h topics ?lv l s)" by (rule covered_levelPass)
  qed
  have "?P (fold (levelPass forwardWeight h topics ?lv) [2..topLevel topics] m)"
    by (rule fold_invariant [where P = ?P, OF c]) (rule covered_levelPass)
  then have "?P (forwardPassSpec h topics m)" by (simp only: f)
  then have b: "fold (levelPass backwardWeight h topics ?lv) (rev [1..topLevel topics - 1])
                  (forwardPassSpec h topics m)
             = backwardPassSpec h topics (forwardPassSpec h topics m)"
    unfolding backwardPassSpec_def
  proof (rule fold_agree [where P = ?P])
    fix l and s :: posMap assume "?P s"
    then show "levelPass backwardWeight h topics ?lv l s = resortLevel h topics (childrenOf topics) l s"
      by (intro levelPass_resortLevel backwardWeight_sortWeight)
  next
    fix l and s :: posMap assume "?P s"
    then show "?P (levelPass backwardWeight h topics ?lv l s)" by (rule covered_levelPass)
  qed
  show ?thesis
    by (simp add: refinementPass_def forUp_fold forDown_fold top sweepSpec_def b f)
qed

lemma covered_refinementPass:
  assumes c: "topic_id ` set topics \<subseteq> dom m"
  shows "topic_id ` set topics \<subseteq> dom (refinementPass h topics levels maxLevel m)"
proof -
  let ?P = "\<lambda>m :: posMap. topic_id ` set topics \<subseteq> dom m"
  have "?P (fold (levelPass forwardWeight h topics levels) [2..maxLevel] m)"
    by (rule fold_invariant [where P = ?P, OF c]) (rule covered_levelPass)
  then show ?thesis
    unfolding refinementPass_def forUp_fold forDown_fold
    by (rule fold_invariant [where P = ?P]) (rule covered_levelPass)
qed

lemma applySpacing_placeLevel_fun:
  "applySpacing h ns (100 + (of_int l - 1) * LEVEL_SPACING) = placeLevel h l ns"
  by (rule ext) (rule applySpacing_placeLevel)

lemma initialPositions_spec:
  "initialPositions h (fst (buildLevels topics)) (snd (buildLevels topics))
     = initialPlacementSpec h topics"
  by (simp add: initialPositions_def forUp_fold buildLevels_nodes buildLevels_max
        applySpacing_placeLevel_fun initialPlacementSpec_def topLevel_def)

text \<open>
  Claim C5.  The layout is the initial placement followed by exactly ten sweeps; a sweep
  is the forward pass over the levels 2..maxLevel in ascending order followed by the
  backward pass over maxLevel-1..1 in descending order; a pass sorts the level by the mean
  of the current y of the node's parents (children, in the backward pass), or by the node's
  own current y if it has none, and places the sorted level by the spacing formula.
\<close>

theorem refinement_is_ten_sweeps:
  assumes "positiveLevels topics"
  shows "computeLayout topics h = (sweepSpec h topics ^^ 10) (initialPlacementSpec h topics)"
proof -
  let ?P = "\<lambda>m :: posMap. topic_id ` set topics \<subseteq> dom m"
  let ?m0 = "initialPositions h (fst (buildLevels topics)) (snd (buildLevels topics))"
  have init: "?P ?m0"
    using initial_covers [OF assms] by blast
  have "(refinementPass h topics (fst (buildLevels topics)) (snd (buildLevels topics)) ^^ 10) ?m0
        = (sweepSpec h topics ^^ 10) ?m0"
  proof (rule funpow_agree [where P = ?P, OF init])
    fix s :: posMap assume "?P s"
    then show "refinementPass h topics (fst (buildLevels topics)) (snd (buildLevels topics)) s
                 = sweepSpec h topics s"
      by (rule refinementPass_sweepSpec)
  next
    fix s :: posMap assume "?P s"
    then show "?P (refinementPass h topics (fst (buildLevels topics)) (snd (buildLevels topics)) s)"
      by (rule covered_refinementPass)
  qed
  then have "computeLayout topics h = (sweepSpec h topics ^^ 10) ?m0"
    by (simp add: computeLayout_def tenPasses_funpow case_prod_unfold Let_def)
  then show ?thesis by (simp only: initialPositions_spec)
qed

lemma crossing_fields:
  "topic_id topicU = ''U''" "topic_id topicV = ''V''" "topic_id topicX = ''X''" "topic_id topicY = ''Y''"
  "level topicU = 1" "level topicV = 1" "level topicX = 2" "level topicY = 2"
  "relatedTopics topicU = [''Y'', ''X'']" "relatedTopics topicV = [''X'']"
  "relatedTopics topicX = []" "relatedTopics topicY = []"
  by (simp_all add: topicU_def topicV_def topicX_def topicY_def)

lemma crossing_topLevel: "topLevel [topicU, topicV, topicX, topicY] = 2"
  by (simp add: topLevel_def crossing_fields)

lemma crossing_initial:
  "initialPlacementSpec 800 [topicU, topicV, topicX, topicY] ''U'' = Some \<lparr>pos_x = 100, pos_y = 260\<rparr>"
  "initialPlacementSpec 800 [topicU, topicV, topicX, topicY] ''V'' = Some \<lparr>pos_x = 100, pos_y = 540\<rparr>"
  "initialPlacementSpec 800 [topicU, topicV, topicX, topicY] ''X'' = Some \<lparr>pos_x = 600, pos_y = 260\<rparr>"
  "initialPlacementSpec 800 [topicU, topicV, topicX, topicY] ''Y'' = Some \<lparr>pos_x = 600, pos_y = 540\<rparr>"
  by (simp_all add: initialPlacementSpec_def crossing_topLevel upto_rec1 placeLevel_def
        bucket_def crossing_fields columnX_def slotY_def map_add_def)

lemma crossing_sweep:
  assumes "m ''U'' = Some \<lparr>pos_x = 100, pos_y = 260\<rparr>"
    and "m ''V'' = Some \<lparr>pos_x = 100, pos_y = 540\<rparr>"
    and "m ''X'' = Some \<lparr>pos_x = 600, pos_y = 260\<rparr> \<and> m ''Y'' = Some \<lparr>pos_x = 600, pos_y = 540\<rparr>
       \<or> m ''X'' = Some \<lparr>pos_x = 600, pos_y = 540\<rparr> \<and> m ''Y'' = Some \<lparr>pos_x = 600, pos_y = 260\<rparr>"
  shows "sweepSpec 800 [topicU, topicV, topicX, topicY] m ''U'' = Some \<lparr>pos_x = 100, pos_y = 260\<rparr>
       \<and> sweepSpec 800 [topicU, topicV, topicX, topicY] m ''V'' = Some \<lparr>pos_x = 100, pos_y = 540\<rparr>
       \<and> sweepSpec 800 [topicU, topicV, topicX, topicY] m ''X'' = Some \<lparr>pos_x = 600, pos_y = 540\<rparr>
       \<and> sweepSpec 800 [topicU, topicV, topicX, topicY] m ''Y'' = Some \<lparr>pos_x = 600, pos_y = 260\<rparr>"
  using assms
  by (auto simp: sweepSpec_def forwardPassSpec_def backwardPassSpec_def crossing_topLevel
        resortLevel_def placeLevel_def bucket_def parentsOf_def childrenOf_def sortWeight_def
        currentY_def mean_def crossing_fields columnX_def slotY_def map_add_def)

theorem refinement_is_ten_sweeps_witness:
  "positiveLevels [topicU, topicV, topicX, topicY]
   \<and> computeLayout [topicU, topicV, topicX, topicY] 800 ''U'' = Some \<lparr>pos_x = 100, pos_y = 260\<rparr>
   \<and> computeLayout [topicU, topicV, topicX, topicY] 800 ''V'' = Some \<lparr>pos_x = 100, pos_y = 540\<rparr>
   \<and> computeLayout [topicU, topicV, topicX, topicY] 800 ''X'' = Some \<lparr>pos_x = 600, pos_y = 540\<rparr>
   \<and> computeLayout [topicU, topicV, topicX, topicY] 800 ''Y'' = Some \<lparr>pos_x = 600, pos_y = 260\<rparr>"
proof -
  let ?ts = "[topicU, topicV, topicX, topicY]"
  let ?P = "\<lambda>m :: posMap. m ''U'' = Some \<lparr>pos_x = 100, pos_y = 260\<rparr>
      \<and> m ''V'' = Some \<lparr>pos_x = 100, pos_y = 540\<rparr>
      \<and> (m ''X'' = Some \<lparr>pos_x = 600, pos_y = 260\<rparr> \<and> m ''Y'' = Some \<lparr>pos_x = 600, pos_y = 540\<rparr>
         \<or> m ''X'' = Some \<lparr>pos_x = 600, pos_y = 540\<rparr> \<and> m ''Y'' = Some \<lparr>pos_x = 600, pos_y = 260\<rparr>)"
  have h: "positiveLevels ?ts"
    by (simp add: positiveLevels_def crossing_fields)
  have start: "?P (initialPlacementSpec 800 ?ts)"
    by (simp add: crossing_initial)
  have step: "?P (sweepSpec 800 ?ts m)" if "?P m" for m
    using that crossing_sweep [of m] by blast
  have nine: "?P ((sweepSpec 800 ?ts ^^ 9) (initialPlacementSpec 800 ?ts))"
    using start step by (rule funpow_invariant [where P = ?P])
  have "(sweepSpec 800 ?ts ^^ 10) (initialPlacementSpec 800 ?ts)
          = sweepSpec 800 ?ts ((sweepSpec 800 ?ts ^^ 9) (initialPlacementSpec 800 ?ts))"
    by (simp add: eval_nat_numeral del: funpow.simps) (simp add: funpow.simps(2))
  with refinement_is_ten_sweeps [OF h, of 800]
  have "computeLayout ?ts 800
          = sweepSpec 800 ?ts ((sweepSpec 800 ?ts ^^ 9) (initialPlacementSpec 800 ?ts))"
    by simp
  with crossing_sweep [of "(sweepSpec 800 ?ts ^^ 9) (initialPlacementSpec 800 ?ts)"] nine h
  show ?thesis by simp
qed

section \<open>Port sorting\<close>

lemma length_setPorts [simp]: "length (setPorts assign n i idxs links) = length links"
  by (induction idxs arbitrary: i links) auto

lemma setPorts_nth_other:
  "a \<notin> set idxs \<Longrightarrow> setPorts assign n i idxs links ! a = links ! a"
  by (induction idxs arbitrary: i links) auto

lemma setPorts_nth:
  "distinct idxs \<Longrightarrow> \<forall>a \<in> set idxs. a < length links \<Longrightarrow> j < length idxs \<Longrightarrow>
   setPorts assign n i idxs links ! (idxs ! j) = assign (i + j) n (links ! (idxs ! j))"
proof (induction idxs arbitrary: i j links)
  case Nil
  then show ?case by simp
next
  case (Cons b rest)
  show ?case
  proof (cases j)
    case 0
    with Cons.prems show ?thesis by (simp add: setPorts_nth_other)
  next
    case (Suc j')
    with Cons.prems have d: "distinct rest" and j': "j' < length rest"
      and r: "\<forall>a \<in> set rest. a < length (links[b := assign i n (links ! b)])" by simp_all
    from Cons.prems Suc have "rest ! j' \<noteq> b" by auto
    with Cons.IH [OF d r j', of "Suc i"] Suc show ?thesis by simp
  qed
qed

lemma setPorts_cases:
  assumes "distinct idxs" "\<forall>a \<in> set idxs. a < length links"
  shows "setPorts assign n 0 idxs links ! a = links ! a
       \<or> (\<exists>i. setPorts assign n 0 idxs links ! a = assign i n (links ! a))"
proof (cases "a \<in> set idxs")
  case True
  then obtain j where "j < length idxs" "idxs ! j = a" by (auto simp: in_set_conv_nth)
  with setPorts_nth [OF assms this(1), of assign n 0] show ?thesis by auto
next
  case False
  then show ?thesis by (simp add: setPorts_nth_other)
qed

lemma set_portOrder:
  "set (portOrder endId otherY k links) = {a. a < length links \<and> endId (links ! a) = k}"
  by (auto simp: portOrder_def)

lemma distinct_portOrder: "distinct (portOrder endId otherY k links)"
  by (simp add: portOrder_def)

lemma sorted_portOrder:
  "sorted (map (\<lambda>a. otherY (links ! a)) (portOrder endId otherY k links))"
  by (simp add: portOrder_def)

lemma sortPorts_portOrder:
  "sortPorts endId otherY assign nd links
     = setPorts assign (length (portOrder endId otherY (topic_id (node_topic nd)) links)) 0
         (portOrder endId otherY (topic_id (node_topic nd)) links) links"
  by (simp add: sortPorts_def portOrder_def Let_def)

lemma portOrder_sameEnds:
  assumes r: "readsEnds endId otherY" and s: "sameEnds links links'"
  shows "portOrder endId otherY k links' = portOrder endId otherY k links"
proof -
  from s have len: "length links' = length links" by (simp add: sameEnds_def)
  have e: "endId (links' ! a) = endId (links ! a) \<and> otherY (links' ! a) = otherY (links ! a)"
    if "a < length links" for a
    using r s that unfolding readsEnds_def sameEnds_def by blast
  have "filter (\<lambda>a. endId (links' ! a) = k) [0..<length links]
          = filter (\<lambda>a. endId (links ! a) = k) [0..<length links]"
    by (rule filter_cong) (simp_all add: e)
  moreover have "sort_key (\<lambda>a. otherY (links' ! a)) (filter (\<lambda>a. endId (links ! a) = k) [0..<length links])
          = sort_key (\<lambda>a. otherY (links ! a)) (filter (\<lambda>a. endId (links ! a) = k) [0..<length links])"
    by (rule sort_key_agree) (simp add: e)
  ultimately show ?thesis by (simp add: portOrder_def len)
qed

lemma sameEnds_refl: "sameEnds links links"
  by (simp add: sameEnds_def)

lemma sameEnds_trans: "sameEnds a b \<Longrightarrow> sameEnds b c \<Longrightarrow> sameEnds a c"
  by (simp add: sameEnds_def)

lemma sortPorts_sameEnds:
  assumes "keepsEnds assign"
  shows "sameEnds links (sortPorts endId otherY assign nd links)"
proof -
  let ?ord = "portOrder endId otherY (topic_id (node_topic nd)) links"
  have b: "\<forall>a \<in> set ?ord. a < length links" by (simp add: set_portOrder)
  have "source (setPorts assign (length ?ord) 0 ?ord links ! a) = source (links ! a)
      \<and> target (setPorts assign (length ?ord) 0 ?ord links ! a) = target (links ! a)
      \<and> active (setPorts assign (length ?ord) 0 ?ord links ! a) = active (links ! a)" for a
    using setPorts_cases [OF distinct_portOrder b, of assign "length ?ord" a] assms
    unfolding keepsEnds_def by auto
  then show ?thesis by (simp add: sameEnds_def sortPorts_portOrder)
qed

lemma sortPorts_ported:
  assumes "\<And>i n l. rd (assign i n l) = (Some i, Some n)"
  shows "ported rd (portOrder endId otherY (topic_id (node_topic nd)) links)
           (sortPorts endId otherY assign nd links)"
proof -
  let ?ord = "portOrder endId otherY (topic_id (node_topic nd)) links"
  have b: "\<forall>a \<in> set ?ord. a < length links" by (simp add: set_portOrder)
  show ?thesis
    unfolding ported_def sortPorts_portOrder
    using setPorts_nth [OF distinct_portOrder b, of _ assign "length ?ord" 0] assms by simp
qed

lemma sortPorts_ported_other:
  assumes r: "readsEnds endId otherY" and s: "sameEnds links0 links"
    and k: "k \<noteq> topic_id (node_topic nd)"
    and p: "ported rd (portOrder endId otherY k links0) links"
  shows "ported rd (portOrder endId otherY k links0) (sortPorts endId otherY assign nd links)"
proof -
  let ?ord = "portOrder endId otherY k links0"
  have "sortPorts endId otherY assign nd links ! (?ord ! j) = links ! (?ord ! j)"
    if "j < length ?ord" for j
  proof -
    from that have "?ord ! j \<in> set ?ord" by simp
    then have a: "?ord ! j < length links0" "endId (links0 ! (?ord ! j)) = k"
      by (simp_all add: set_portOrder)
    with r s have "endId (links ! (?ord ! j)) = k"
      unfolding readsEnds_def sameEnds_def by metis
    with k have "?ord ! j \<notin> set (portOrder endId otherY (topic_id (node_topic nd)) links)"
      by (simp add: set_portOrder)
    then show ?thesis by (simp add: sortPorts_portOrder setPorts_nth_other)
  qed
  with p show ?thesis by (simp add: ported_def)
qed

lemma sortPorts_ported_unread:
  assumes u: "\<And>i n l. rd (assign i n l) = rd l" and p: "ported rd ord links"
  shows "ported rd ord (sortPorts endId otherY assign nd links)"
proof -
  let ?o = "portOrder endId otherY (topic_id (node_topic nd)) links"
  have b: "\<forall>a \<in> set ?o. a < length links" by (simp add: set_portOrder)
  have "rd (sortPorts endId otherY assign nd links ! a) = rd (links ! a)" for a
    using setPorts_cases [OF distinct_portOrder b, of assign "length ?o" a] u
    by (auto simp: sortPorts_portOrder)
  with p show ?thesis by (simp add: ported_def)
qed

lemma fold_sortPorts_sameEnds:
  assumes "keepsEnds assign"
  shows "sameEnds links0 links \<Longrightarrow> sameEnds links0 (fold (sortPorts endId otherY assign) nds links)"
proof (induction nds arbitrary: links)
  case Nil
  then show ?case by simp
next
  case (Cons nd nds)
  from sameEnds_trans [OF Cons.prems sortPorts_sameEnds [OF assms]]
  have "sameEnds links0 (sortPorts endId otherY assign nd links)" .
  from Cons.IH [OF this] show ?case by simp
qed

lemma fold_sortPorts_unread:
  assumes "\<And>i n l. rd (assign i n l) = rd l"
  shows "ported rd ord links \<Longrightarrow> ported rd ord (fold (sortPorts endId otherY assign) nds links)"
proof (induction nds arbitrary: links)
  case Nil
  then show ?case by simp
next
  case (Cons nd nds)
  from Cons.IH [OF sortPorts_ported_unread [of rd assign ord links, OF assms Cons.prems]]
  show ?case by simp
qed

lemma fold_sortPorts_ported:
  assumes r: "readsEnds endId otherY" and ke: "keepsEnds assign"
    and rd: "\<And>i n l. rd (assign i n l) = (Some i, Some n)"
  shows "sameEnds links0 links \<Longrightarrow>
    topic_id (node_topic nd) \<in> topic_id ` node_topic ` set nds
      \<or> ported rd (portOrder endId otherY (topic_id (node_topic nd)) links0) links \<Longrightarrow>
    ported rd (portOrder endId otherY (topic_id (node_topic nd)) links0)
      (fold (sortPorts endId otherY assign) nds links)"
proof (induction nds arbitrary: links)
  case Nil
  then show ?case by simp
next
  case (Cons n nds)
  let ?k = "topic_id (node_topic nd)"
  let ?links' = "sortPorts endId otherY assign n links"
  have s': "sameEnds links0 ?links'"
    by (rule sameEnds_trans [OF Cons.prems(1) sortPorts_sameEnds [OF ke]])
  have "?k \<in> topic_id ` node_topic ` set nds \<or> ported rd (portOrder endId otherY ?k links0) ?links'"
  proof (cases "?k = topic_id (node_topic n)")
    case True
    from sortPorts_ported [of rd assign endId otherY n links, OF rd]
      portOrder_sameEnds [OF r Cons.prems(1), of "topic_id (node_topic n)"] True
    show ?thesis by simp
  next
    case False
    show ?thesis
    proof (cases "?k \<in> topic_id ` node_topic ` set nds")
      case True
      then show ?thesis ..
    next
      case notin: False
      with Cons.prems(2) False have "ported rd (portOrder endId otherY ?k links0) links" by auto
      from sortPorts_ported_other [OF r Cons.prems(1) False this] show ?thesis ..
    qed
  qed
  from Cons.IH [OF s' this] show ?case by simp
qed

lemma ported_ports:
  assumes p: "ported rd (portOrder endId otherY k links) links"
    and I: "I = {a. a < length links \<and> endId (links ! a) = k}"
  shows "(\<forall>a \<in> I. snd (rd (links ! a)) = Some (card I))
       \<and> bij_betw (\<lambda>a. fst (rd (links ! a))) I (Some ` {0..<card I})
       \<and> (\<forall>a \<in> I. \<forall>b \<in> I. \<forall>i j.
            fst (rd (links ! a)) = Some i \<and> fst (rd (links ! b)) = Some j \<and> i < j
              \<longrightarrow> otherY (links ! a) \<le> otherY (links ! b))"
proof -
  let ?ord = "portOrder endId otherY k links"
  let ?I = "I"
  have set: "set ?ord = ?I" unfolding I by (rule set_portOrder)
  have card: "card ?I = length ?ord"
    using distinct_card [OF distinct_portOrder [of endId otherY k links]] set by simp
  have at: "rd (links ! (?ord ! j)) = (Some j, Some (length ?ord))" if "j < length ?ord" for j
    using p that by (simp add: ported_def)
  have pos: "\<exists>j < length ?ord. ?ord ! j = a" if "a \<in> ?I" for a
    using that set by (metis in_set_conv_nth)
  have tot: "\<forall>a \<in> ?I. snd (rd (links ! a)) = Some (card ?I)"
  proof
    fix a assume "a \<in> ?I"
    from pos [OF this] obtain j where "j < length ?ord" "?ord ! j = a" by blast
    with at [of j] card show "snd (rd (links ! a)) = Some (card ?I)" by simp
  qed
  have inj: "inj_on (\<lambda>a. fst (rd (links ! a))) ?I"
  proof (rule inj_onI)
    fix a b assume a: "a \<in> ?I" and b: "b \<in> ?I"
      and e: "fst (rd (links ! a)) = fst (rd (links ! b))"
    from pos [OF a] obtain i where i: "i < length ?ord" "?ord ! i = a" by blast
    from pos [OF b] obtain j where j: "j < length ?ord" "?ord ! j = b" by blast
    from at [OF i(1)] at [OF j(1)] i(2) j(2) e have "i = j" by simp
    with i j show "a = b" by simp
  qed
  have img: "(\<lambda>a. fst (rd (links ! a))) ` ?I = Some ` {0..<card ?I}"
  proof (rule set_eqI, rule iffI)
    fix v assume "v \<in> (\<lambda>a. fst (rd (links ! a))) ` ?I"
    then obtain a where a: "a \<in> ?I" "v = fst (rd (links ! a))" by blast
    from pos [OF a(1)] obtain j where j: "j < length ?ord" "?ord ! j = a" by blast
    with at [OF j(1)] a(2) card show "v \<in> Some ` {0..<card ?I}" by simp
  next
    fix v assume "v \<in> Some ` {0..<card ?I}"
    then obtain j where j: "j < length ?ord" "v = Some j" using card by auto
    then have "?ord ! j \<in> ?I" using set nth_mem by blast
    moreover from at [OF j(1)] j(2) have "v = fst (rd (links ! (?ord ! j)))" by simp
    ultimately show "v \<in> (\<lambda>a. fst (rd (links ! a))) ` ?I" by blast
  qed
  have ord: "\<forall>a \<in> ?I. \<forall>b \<in> ?I. \<forall>i j.
      fst (rd (links ! a)) = Some i \<and> fst (rd (links ! b)) = Some j \<and> i < j
        \<longrightarrow> otherY (links ! a) \<le> otherY (links ! b)"
  proof (intro ballI allI impI)
    fix a b i j
    assume a: "a \<in> ?I" and b: "b \<in> ?I"
      and h: "fst (rd (links ! a)) = Some i \<and> fst (rd (links ! b)) = Some j \<and> i < j"
    from pos [OF a] obtain i' where i': "i' < length ?ord" "?ord ! i' = a" by blast
    from pos [OF b] obtain j' where j': "j' < length ?ord" "?ord ! j' = b" by blast
    from at [OF i'(1)] at [OF j'(1)] i'(2) j'(2) h have "i' = i" "j' = j" by simp_all
    with i' j' h have ij: "i \<le> j" "j < length ?ord" "?ord ! i = a" "?ord ! j = b" by simp_all
    from sorted_nth_mono [OF sorted_portOrder [of otherY links endId k], of i j] ij
    show "otherY (links ! a) \<le> otherY (links ! b)" by simp
  qed
  from tot inj img ord show ?thesis unfolding bij_betw_def by blast
qed

lemma readsEnds_source: "readsEnds (\<lambda>l. topic_id (node_topic (source l))) (\<lambda>l. node_y (target l))"
  by (simp add: readsEnds_def)

lemma readsEnds_target: "readsEnds (\<lambda>l. topic_id (node_topic (target l))) (\<lambda>l. node_y (source l))"
  by (simp add: readsEnds_def)

lemma keepsEnds_source: "keepsEnds (\<lambda>i n l. l\<lparr>sourceIndex := Some i, sourceTotal := Some n\<rparr>)"
  by (simp add: keepsEnds_def)

lemma keepsEnds_target: "keepsEnds (\<lambda>i n l. l\<lparr>targetIndex := Some i, targetTotal := Some n\<rparr>)"
  by (simp add: keepsEnds_def)

lemma routeEdges_sameEnds: "sameEnds (allLinks nodes) (routeEdges nodes)"
  unfolding routeEdges_def sortSourcePorts_def sortTargetPorts_def
  by (intro fold_sortPorts_sameEnds keepsEnds_source keepsEnds_target sameEnds_refl)

lemma routeEdges_source_ported:
  assumes "nd \<in> set nodes"
  shows "ported (\<lambda>l. (sourceIndex l, sourceTotal l))
           (portOrder (\<lambda>l. topic_id (node_topic (source l))) (\<lambda>l. node_y (target l))
              (topic_id (node_topic nd)) (routeEdges nodes))
           (routeEdges nodes)"
proof -
  let ?e = "\<lambda>l. topic_id (node_topic (source l))" and ?y = "\<lambda>l. node_y (target l)"
  let ?rd = "\<lambda>l. (sourceIndex l, sourceTotal l)"
  let ?L0 = "allLinks nodes"
  let ?L1 = "fold sortSourcePorts nodes ?L0"
  from assms have "topic_id (node_topic nd) \<in> topic_id ` node_topic ` set nodes" by blast
  then have "topic_id (node_topic nd) \<in> topic_id ` node_topic ` set nodes
      \<or> ported ?rd (portOrder ?e ?y (topic_id (node_topic nd)) ?L0) ?L0" ..
  from fold_sortPorts_ported [of ?e ?y _ ?rd, OF readsEnds_source keepsEnds_source _ sameEnds_refl this]
  have "ported ?rd (portOrder ?e ?y (topic_id (node_topic nd)) ?L0) ?L1"
    by (simp add: sortSourcePorts_def)
  then have "ported ?rd (portOrder ?e ?y (topic_id (node_topic nd)) ?L0) (routeEdges nodes)"
    unfolding routeEdges_def sortTargetPorts_def
    by (intro fold_sortPorts_unread) simp_all
  with portOrder_sameEnds [OF readsEnds_source routeEdges_sameEnds, of "topic_id (node_topic nd)" nodes]
  show ?thesis by simp
qed

lemma routeEdges_target_ported:
  assumes "nd \<in> set nodes"
  shows "ported (\<lambda>l. (targetIndex l, targetTotal l))
           (portOrder (\<lambda>l. topic_id (node_topic (target l))) (\<lambda>l. node_y (source l))
              (topic_id (node_topic nd)) (routeEdges nodes))
           (routeEdges nodes)"
proof -
  let ?e = "\<lambda>l. topic_id (node_topic (target l))" and ?y = "\<lambda>l. node_y (source l)"
  let ?rd = "\<lambda>l. (targetIndex l, targetTotal l)"
  let ?L0 = "allLinks nodes"
  let ?L1 = "fold sortSourcePorts nodes ?L0"
  have s1: "sameEnds ?L0 ?L1"
    unfolding sortSourcePorts_def
    by (intro fold_sortPorts_sameEnds keepsEnds_source sameEnds_refl)
  from assms have "topic_id (node_topic nd) \<in> topic_id ` node_topic ` set nodes" by blast
  then have "topic_id (node_topic nd) \<in> topic_id ` node_topic ` set nodes
      \<or> ported ?rd (portOrder ?e ?y (topic_id (node_topic nd)) ?L0) ?L1" ..
  from fold_sortPorts_ported [of ?e ?y _ ?rd, OF readsEnds_target keepsEnds_target _ s1 this]
  have "ported ?rd (portOrder ?e ?y (topic_id (node_topic nd)) ?L0) (routeEdges nodes)"
    by (simp add: sortTargetPorts_def routeEdges_def)
  with portOrder_sameEnds [OF readsEnds_target routeEdges_sameEnds, of "topic_id (node_topic nd)" nodes]
  show ?thesis by simp
qed

text \<open>
  Claim C2.  After port sorting, for every node: the source indices of its outgoing links
  are exactly 0..sourceTotal-1, each once, in ascending order of the target's y, and
  sourceTotal is the number of its outgoing links; and the same for the target indices of
  its incoming links, in ascending order of the source's y.
\<close>

theorem port_indices_complete_and_sorted:
  "\<forall>nd \<in> set nodes.
     (\<forall>a \<in> outgoing (routeEdges nodes) nd.
         sourceTotal (routeEdges nodes ! a) = Some (card (outgoing (routeEdges nodes) nd)))
   \<and> bij_betw (\<lambda>a. sourceIndex (routeEdges nodes ! a)) (outgoing (routeEdges nodes) nd)
        (Some ` {0..<card (outgoing (routeEdges nodes) nd)})
   \<and> (\<forall>a \<in> outgoing (routeEdges nodes) nd. \<forall>b \<in> outgoing (routeEdges nodes) nd. \<forall>i j.
         sourceIndex (routeEdges nodes ! a) = Some i \<and> sourceIndex (routeEdges nodes ! b) = Some j \<and> i < j
           \<longrightarrow> node_y (target (routeEdges nodes ! a)) \<le> node_y (target (routeEdges nodes ! b)))
   \<and> (\<forall>a \<in> incoming (routeEdges nodes) nd.
         targetTotal (routeEdges nodes ! a) = Some (card (incoming (routeEdges nodes) nd)))
   \<and> bij_betw (\<lambda>a. targetIndex (routeEdges nodes ! a)) (incoming (routeEdges nodes) nd)
        (Some ` {0..<card (incoming (routeEdges nodes) nd)})
   \<and> (\<forall>a \<in> incoming (routeEdges nodes) nd. \<forall>b \<in> incoming (routeEdges nodes) nd. \<forall>i j.
         targetIndex (routeEdges nodes ! a) = Some i \<and> targetIndex (routeEdges nodes ! b) = Some j \<and> i < j
           \<longrightarrow> node_y (source (routeEdges nodes ! a)) \<le> node_y (source (routeEdges nodes ! b)))
   \<and> card (outgoing (routeEdges nodes) nd)
        = length (filter (\<lambda>l. topic_id (node_topic (source l)) = topic_id (node_topic nd)) (allLinks nodes))
   \<and> card (incoming (routeEdges nodes) nd)
        = length (filter (\<lambda>l. topic_id (node_topic (target l)) = topic_id (node_topic nd)) (allLinks nodes))"
proof
  fix nd assume nd: "nd \<in> set nodes"
  let ?R = "routeEdges nodes"
  have src: "(\<forall>a \<in> outgoing ?R nd. sourceTotal (?R ! a) = Some (card (outgoing ?R nd)))
   \<and> bij_betw (\<lambda>a. sourceIndex (?R ! a)) (outgoing ?R nd) (Some ` {0..<card (outgoing ?R nd)})
   \<and> (\<forall>a \<in> outgoing ?R nd. \<forall>b \<in> outgoing ?R nd. \<forall>i j.
         sourceIndex (?R ! a) = Some i \<and> sourceIndex (?R ! b) = Some j \<and> i < j
           \<longrightarrow> node_y (target (?R ! a)) \<le> node_y (target (?R ! b)))"
    using ported_ports [OF routeEdges_source_ported [OF nd], of "outgoing ?R nd"]
    by (simp add: outgoing_def)
  have tgt: "(\<forall>a \<in> incoming ?R nd. targetTotal (?R ! a) = Some (card (incoming ?R nd)))
   \<and> bij_betw (\<lambda>a. targetIndex (?R ! a)) (incoming ?R nd) (Some ` {0..<card (incoming ?R nd)})
   \<and> (\<forall>a \<in> incoming ?R nd. \<forall>b \<in> incoming ?R nd. \<forall>i j.
         targetIndex (?R ! a) = Some i \<and> targetIndex (?R ! b) = Some j \<and> i < j
           \<longrightarrow> node_y (source (?R ! a)) \<le> node_y (source (?R ! b)))"
    using ported_ports [OF routeEdges_target_ported [OF nd], of "incoming ?R nd"]
    by (simp add: incoming_def)
  from routeEdges_sameEnds [of nodes]
  have len: "length ?R = length (allLinks nodes)"
    and ends: "\<And>a. a < length (allLinks nodes) \<Longrightarrow> source (?R ! a) = source (allLinks nodes ! a)
                 \<and> target (?R ! a) = target (allLinks nodes ! a)"
    by (simp_all add: sameEnds_def)
  have "outgoing ?R nd = {a. a < length (allLinks nodes)
           \<and> topic_id (node_topic (source (allLinks nodes ! a))) = topic_id (node_topic nd)}"
    unfolding outgoing_def len using ends by auto
  then have co: "card (outgoing ?R nd)
        = length (filter (\<lambda>l. topic_id (node_topic (source l)) = topic_id (node_topic nd)) (allLinks nodes))"
    by (simp add: length_filter_conv_card)
  have "incoming ?R nd = {a. a < length (allLinks nodes)
           \<and> topic_id (node_topic (target (allLinks nodes ! a))) = topic_id (node_topic nd)}"
    unfolding incoming_def len using ends by auto
  then have ci: "card (incoming ?R nd)
        = length (filter (\<lambda>l. topic_id (node_topic (target l)) = topic_id (node_topic nd)) (allLinks nodes))"
    by (simp add: length_filter_conv_card)
  from src tgt co ci
  show "(\<forall>a \<in> outgoing ?R nd. sourceTotal (?R ! a) = Some (card (outgoing ?R nd)))
   \<and> bij_betw (\<lambda>a. sourceIndex (?R ! a)) (outgoing ?R nd) (Some ` {0..<card (outgoing ?R nd)})
   \<and> (\<forall>a \<in> outgoing ?R nd. \<forall>b \<in> outgoing ?R nd. \<forall>i j.
         sourceIndex (?R ! a) = Some i \<and> sourceIndex (?R ! b) = Some j \<and> i < j
           \<longrightarrow> node_y (target (?R ! a)) \<le> node_y (target (?R ! b)))
   \<and> (\<forall>a \<in> incoming ?R nd. targetTotal (?R ! a) = Some (card (incoming ?R nd)))
   \<and> bij_betw (\<lambda>a. targetIndex (?R ! a)) (incoming ?R nd) (Some ` {0..<card (incoming ?R nd)})
   \<and> (\<forall>a \<in> incoming ?R nd. \<forall>b \<in> incoming ?R nd. \<forall>i j.
         targetIndex (?R ! a) = Some i \<and> targetIndex (?R ! b) = Some j \<and> i < j
           \<longrightarrow> node_y (source (?R ! a)) \<le> node_y (source (?R ! b)))
   \<and> card (outgoing ?R nd)
        = length (filter (\<lambda>l. topic_id (node_topic (source l)) = topic_id (node_topic nd)) (allLinks nodes))
   \<and> card (incoming ?R nd)
        = length (filter (\<lambda>l. topic_id (node_topic (target l)) = topic_id (node_topic nd)) (allLinks nodes))"
    by blast
qed

lemma scenario_allLinks:
  "allLinks (buildNodes C m [topicA, topicB])
     = [\<lparr>source = mkNode C m topicA, target = mkNode C m topicB,
         active = node_complete (mkNode C m topicA),
         sourceIndex = None, sourceTotal = None, targetIndex = None, targetTotal = None\<rparr>]"
  by (simp add: allLinks_def linksFrom_def buildNodes_def mkNode_topic topicA_def topicB_def)

lemma scenario_routeEdges:
  "routeEdges (buildNodes C m [topicA, topicB])
     = [\<lparr>source = mkNode C m topicA, target = mkNode C m topicB,
         active = node_complete (mkNode C m topicA),
         sourceIndex = Some 0, sourceTotal = Some 1, targetIndex = Some 0, targetTotal = Some 1\<rparr>]"
  unfolding routeEdges_def scenario_allLinks
  by (simp add: buildNodes_def sortSourcePorts_def sortTargetPorts_def sortPorts_def mkNode_topic
        topicA_def topicB_def)

theorem port_indices_complete_and_sorted_witness:
  "mkNode {} (computeLayout [topicA, topicB] 800) topicA
     \<in> set (buildNodes {} (computeLayout [topicA, topicB] 800) [topicA, topicB])
   \<and> outgoing (routeEdges (buildNodes {} (computeLayout [topicA, topicB] 800) [topicA, topicB]))
        (mkNode {} (computeLayout [topicA, topicB] 800) topicA) = {0}
   \<and> sourceIndex (routeEdges (buildNodes {} (computeLayout [topicA, topicB] 800) [topicA, topicB]) ! 0) = Some 0
   \<and> sourceTotal (routeEdges (buildNodes {} (computeLayout [topicA, topicB] 800) [topicA, topicB]) ! 0) = Some 1
   \<and> incoming (routeEdges (buildNodes {} (computeLayout [topicA, topicB] 800) [topicA, topicB]))
        (mkNode {} (computeLayout [topicA, topicB] 800) topicB) = {0}
   \<and> targetIndex (routeEdges (buildNodes {} (computeLayout [topicA, topicB] 800) [topicA, topicB]) ! 0) = Some 0
   \<and> targetTotal (routeEdges (buildNodes {} (computeLayout [topicA, topicB] 800) [topicA, topicB]) ! 0) = Some 1"
proof -
  let ?m = "computeLayout [topicA, topicB] 800"
  let ?nodes = "buildNodes {} ?m [topicA, topicB]"
  let ?R = "routeEdges ?nodes"
  let ?a = "mkNode {} ?m topicA" and ?b = "mkNode {} ?m topicB"
  have a: "?a \<in> set ?nodes" and b: "?b \<in> set ?nodes" by (simp_all add: buildNodes_def)
  have out: "outgoing ?R ?a = {0}"
    by (auto simp: outgoing_def scenario_routeEdges mkNode_topic)
  have inc: "incoming ?R ?b = {0}"
    by (auto simp: incoming_def scenario_routeEdges mkNode_topic)
  note pa = port_indices_complete_and_sorted [of ?nodes, THEN bspec, OF a]
  note pb = port_indices_complete_and_sorted [of ?nodes, THEN bspec, OF b]
  from pa have "\<forall>i \<in> outgoing ?R ?a. sourceTotal (?R ! i) = Some (card (outgoing ?R ?a))"
    and "bij_betw (\<lambda>i. sourceIndex (?R ! i)) (outgoing ?R ?a) (Some ` {0..<card (outgoing ?R ?a)})"
    by blast+
  then have s: "sourceTotal (?R ! 0) = Some 1" "sourceIndex (?R ! 0) = Some 0"
    unfolding out by (simp_all add: bij_betw_def)
  from pb have "\<forall>i \<in> incoming ?R ?b. targetTotal (?R ! i) = Some (card (incoming ?R ?b))"
    and "bij_betw (\<lambda>i. targetIndex (?R ! i)) (incoming ?R ?b) (Some ` {0..<card (incoming ?R ?b)})"
    by blast+
  then have t: "targetTotal (?R ! 0) = Some 1" "targetIndex (?R ! 0) = Some 0"
    unfolding inc by (simp_all add: bij_betw_def)
  from a out inc s t show ?thesis by simp
qed

section \<open>Links\<close>

lemma find_buildNodes:
  "uniqueIds topics \<Longrightarrow> tg \<in> set topics \<Longrightarrow>
   find (\<lambda>n. topic_id (node_topic n) = topic_id tg) (buildNodes C m topics) = Some (mkNode C m tg)"
proof (induction topics)
  case Nil
  then show ?case by simp
next
  case (Cons a topics)
  show ?case
  proof (cases "topic_id a = topic_id tg")
    case True
    with Cons.prems uniqueIds_inj [of "a # topics" a tg] have "a = tg" by simp
    then show ?thesis by (simp add: buildNodes_def mkNode_topic)
  next
    case False
    with Cons.prems have "uniqueIds topics" "tg \<in> set topics"
      by (auto simp: uniqueIds_def)
    from Cons.IH [OF this] False show ?thesis by (simp add: buildNodes_def mkNode_topic)
  qed
qed

lemma find_buildNodes_Some:
  "find (\<lambda>n. topic_id (node_topic n) = t) (buildNodes C m topics) = Some n \<Longrightarrow>
   \<exists>tg \<in> set topics. n = mkNode C m tg \<and> topic_id tg = t"
  by (induction topics) (auto simp: buildNodes_def mkNode_topic split: if_splits)

lemma in_allLinks:
  "e \<in> set (allLinks nodes) \<longleftrightarrow>
     (\<exists>src \<in> set nodes. \<exists>t \<in> set (relatedTopics (node_topic src)). \<exists>tgt.
        find (\<lambda>n. topic_id (node_topic n) = t) nodes = Some tgt \<and>
        level (node_topic src) < level (node_topic tgt) \<and>
        e = \<lparr>source = src, target = tgt, active = node_complete src,
             sourceIndex = None, sourceTotal = None, targetIndex = None, targetTotal = None\<rparr>)"
  (is "?lhs \<longleftrightarrow> ?rhs")
proof
  assume ?lhs
  then show ?rhs
    by (auto simp: allLinks_def linksFrom_def split: option.splits if_splits)
next
  assume ?rhs
  then obtain src t tgt where src: "src \<in> set nodes"
    and t: "t \<in> set (relatedTopics (node_topic src))"
    and f: "find (\<lambda>n. topic_id (node_topic n) = t) nodes = Some tgt"
    and lv: "level (node_topic src) < level (node_topic tgt)"
    and e: "e = \<lparr>source = src, target = tgt, active = node_complete src,
             sourceIndex = None, sourceTotal = None, targetIndex = None, targetTotal = None\<rparr>"
    by blast
  from t f lv e have "e \<in> set (linksFrom nodes src)"
    unfolding linksFrom_def by (auto intro!: bexI [of _ t])
  with src show ?lhs by (auto simp: allLinks_def)
qed

lemma routed_link_origin:
  assumes "e \<in> set (routeEdges nodes)"
  shows "\<exists>l \<in> set (allLinks nodes). source e = source l \<and> target e = target l \<and> active e = active l"
proof -
  from assms obtain a where a: "a < length (routeEdges nodes)" "e = routeEdges nodes ! a"
    by (auto simp: in_set_conv_nth)
  with routeEdges_sameEnds [of nodes] have "a < length (allLinks nodes)"
    "source e = source (allLinks nodes ! a)" "target e = target (allLinks nodes ! a)"
    "active e = active (allLinks nodes ! a)"
    by (simp_all add: sameEnds_def)
  then show ?thesis using nth_mem by blast
qed

lemma link_routed:
  assumes "l \<in> set (allLinks nodes)"
  shows "\<exists>e \<in> set (routeEdges nodes). source e = source l \<and> target e = target l \<and> active e = active l"
proof -
  from assms obtain a where a: "a < length (allLinks nodes)" "l = allLinks nodes ! a"
    by (auto simp: in_set_conv_nth)
  with routeEdges_sameEnds [of nodes] have "a < length (routeEdges nodes)"
    "source (routeEdges nodes ! a) = source l" "target (routeEdges nodes ! a) = target l"
    "active (routeEdges nodes ! a) = active l"
    by (simp_all add: sameEnds_def)
  then show ?thesis using nth_mem by blast
qed

lemma routed_edge_sound:
  assumes "e \<in> set (routeEdges (buildNodes C m topics))"
  shows "\<exists>s \<in> set topics. \<exists>tg \<in> set topics.
           source e = mkNode C m s \<and> target e = mkNode C m tg \<and>
           topic_id tg \<in> set (relatedTopics s) \<and> level s < level tg \<and> active e = isComplete C s"
proof -
  from routed_link_origin [OF assms] obtain l where
    l: "l \<in> set (allLinks (buildNodes C m topics))"
      "source e = source l" "target e = target l" "active e = active l" by blast
  from l(1) [unfolded in_allLinks] obtain src t tgt where
    src: "src \<in> set (buildNodes C m topics)" and t: "t \<in> set (relatedTopics (node_topic src))"
    and f: "find (\<lambda>n. topic_id (node_topic n) = t) (buildNodes C m topics) = Some tgt"
    and lv: "level (node_topic src) < level (node_topic tgt)"
    and le: "l = \<lparr>source = src, target = tgt, active = node_complete src,
             sourceIndex = None, sourceTotal = None, targetIndex = None, targetTotal = None\<rparr>"
    by blast
  from src obtain s where s: "s \<in> set topics" "src = mkNode C m s"
    by (auto simp: buildNodes_def)
  from find_buildNodes_Some [OF f] obtain tg where
    tg: "tg \<in> set topics" "tgt = mkNode C m tg" "topic_id tg = t" by blast
  from s tg t lv le l(2,3,4) show ?thesis
    by (auto simp: mkNode_topic mkNode_complete)
qed

lemma routed_edge_complete:
  assumes u: "uniqueIds topics" and s: "s \<in> set topics" and tg: "tg \<in> set topics"
    and r: "topic_id tg \<in> set (relatedTopics s)" and lv: "level s < level tg"
  shows "\<exists>e \<in> set (routeEdges (buildNodes C m topics)).
           source e = mkNode C m s \<and> target e = mkNode C m tg \<and> active e = isComplete C s"
proof -
  let ?l = "\<lparr>source = mkNode C m s, target = mkNode C m tg, active = node_complete (mkNode C m s),
             sourceIndex = None, sourceTotal = None, targetIndex = None, targetTotal = None\<rparr>"
  from s have "mkNode C m s \<in> set (buildNodes C m topics)" by (simp add: buildNodes_def)
  with r lv find_buildNodes [OF u tg, of C m]
  have "?l \<in> set (allLinks (buildNodes C m topics))"
    unfolding in_allLinks by (auto simp: mkNode_topic)
  from link_routed [OF this] show ?thesis by (simp add: mkNode_complete)
qed

text \<open>
  Claim C1.  For a topic list with unique ids, a topic \<open>s\<close> and an id \<open>t\<close> in
  \<open>s.relatedTopics\<close>: the routed links contain the link from \<open>s\<close> to \<open>target\<close> with
  \<open>active = isComplete s\<close> exactly when \<open>target\<close> is a topic of the list with id \<open>t\<close> and
  \<open>s.level < target.level\<close>.  Every routed link is of this kind, so a dangling reference, a
  self-reference and a reference to the same or a lower level give no link; the routing is
  a total function, so none of them is an error.
\<close>

theorem links_follow_level_order:
  assumes u: "uniqueIds topics"
  shows "(\<forall>s \<in> set topics. \<forall>t \<in> set (relatedTopics s). \<forall>tg :: topic. topic_id tg = t \<longrightarrow>
            ((\<exists>e \<in> set (routeEdges (buildNodes C m topics)).
                source e = mkNode C m s \<and> target e = mkNode C m tg \<and> active e = isComplete C s)
             \<longleftrightarrow> (tg \<in> set topics \<and> level s < level tg)))
       \<and> (\<forall>e \<in> set (routeEdges (buildNodes C m topics)). \<exists>s \<in> set topics. \<exists>tg \<in> set topics.
            source e = mkNode C m s \<and> target e = mkNode C m tg \<and>
            topic_id tg \<in> set (relatedTopics s) \<and> level s < level tg \<and> active e = isComplete C s)
       \<and> (\<forall>s \<in> set topics. \<forall>t \<in> set (relatedTopics s).
            \<not> (\<exists>tg \<in> set topics. topic_id tg = t \<and> level s < level tg) \<longrightarrow>
            \<not> (\<exists>e \<in> set (routeEdges (buildNodes C m topics)).
                  node_topic (source e) = s \<and> topic_id (node_topic (target e)) = t))"
proof (intro conjI ballI allI impI)
  fix s t and tg :: topic
  assume s: "s \<in> set topics" and t: "t \<in> set (relatedTopics s)" and tg: "topic_id tg = t"
  show "(\<exists>e \<in> set (routeEdges (buildNodes C m topics)).
           source e = mkNode C m s \<and> target e = mkNode C m tg \<and> active e = isComplete C s)
        \<longleftrightarrow> (tg \<in> set topics \<and> level s < level tg)"
  proof
    assume "\<exists>e \<in> set (routeEdges (buildNodes C m topics)).
              source e = mkNode C m s \<and> target e = mkNode C m tg \<and> active e = isComplete C s"
    then obtain e where e: "e \<in> set (routeEdges (buildNodes C m topics))"
      "source e = mkNode C m s" "target e = mkNode C m tg" by blast
    from routed_edge_sound [OF e(1)] obtain s' tg' where
      x: "s' \<in> set topics" "tg' \<in> set topics" "source e = mkNode C m s'"
        "target e = mkNode C m tg'" "level s' < level tg'" by blast
    from x(3) e(2) have "node_topic (mkNode C m s') = node_topic (mkNode C m s)" by simp
    then have "s' = s" by (simp add: mkNode_topic)
    moreover from x(4) e(3) have "node_topic (mkNode C m tg') = node_topic (mkNode C m tg)" by simp
    then have "tg' = tg" by (simp add: mkNode_topic)
    ultimately show "tg \<in> set topics \<and> level s < level tg" using x by simp
  next
    assume "tg \<in> set topics \<and> level s < level tg"
    with routed_edge_complete [OF u s, of tg C m] t tg
    show "\<exists>e \<in> set (routeEdges (buildNodes C m topics)).
              source e = mkNode C m s \<and> target e = mkNode C m tg \<and> active e = isComplete C s"
      by blast
  qed
next
  fix e assume "e \<in> set (routeEdges (buildNodes C m topics))"
  then show "\<exists>s \<in> set topics. \<exists>tg \<in> set topics.
            source e = mkNode C m s \<and> target e = mkNode C m tg \<and>
            topic_id tg \<in> set (relatedTopics s) \<and> level s < level tg \<and> active e = isComplete C s"
    by (rule routed_edge_sound)
next
  fix s t
  assume s: "s \<in> set topics" and t: "t \<in> set (relatedTopics s)"
    and none: "\<not> (\<exists>tg \<in> set topics. topic_id tg = t \<and> level s < level tg)"
  show "\<not> (\<exists>e \<in> set (routeEdges (buildNodes C m topics)).
              node_topic (source e) = s \<and> topic_id (node_topic (target e)) = t)"
  proof
    assume "\<exists>e \<in> set (routeEdges (buildNodes C m topics)).
              node_topic (source e) = s \<and> topic_id (node_topic (target e)) = t"
    then obtain e where e: "e \<in> set (routeEdges (buildNodes C m topics))"
      "node_topic (source e) = s" "topic_id (node_topic (target e)) = t" by blast
    from routed_edge_sound [OF e(1)] obtain s' tg' where
      x: "s' \<in> set topics" "tg' \<in> set topics" "source e = mkNode C m s'"
        "target e = mkNode C m tg'" "level s' < level tg'" by blast
    from x(3,4) e(2,3) have "s' = s" "topic_id tg' = t" by (simp_all add: mkNode_topic)
    with x none show False by blast
  qed
qed

theorem links_follow_level_order_witness:
  "uniqueIds [topicA, topicB, topicC]
   \<and> topicC \<in> set [topicA, topicB, topicC]
   \<and> ''B'' \<in> set (relatedTopics topicC) \<and> ''Z'' \<in> set (relatedTopics topicC)
   \<and> ''C'' \<in> set (relatedTopics topicC) \<and> ''A'' \<in> set (relatedTopics topicC)
   \<and> (\<exists>e \<in> set (routeEdges (buildNodes {''C-1''} (computeLayout [topicA, topicB, topicC] 800)
                                  [topicA, topicB, topicC])).
         source e = mkNode {''C-1''} (computeLayout [topicA, topicB, topicC] 800) topicC \<and>
         target e = mkNode {''C-1''} (computeLayout [topicA, topicB, topicC] 800) topicB \<and>
         active e = isComplete {''C-1''} topicC)
   \<and> isComplete {''C-1''} topicC
   \<and> \<not> (\<exists>e \<in> set (routeEdges (buildNodes {''C-1''} (computeLayout [topicA, topicB, topicC] 800)
                                  [topicA, topicB, topicC])).
           node_topic (source e) = topicC \<and> topic_id (node_topic (target e)) = ''Z'')
   \<and> \<not> (\<exists>e \<in> set (routeEdges (buildNodes {''C-1''} (computeLayout [topicA, topicB, topicC] 800)
                                  [topicA, topicB, topicC])).
           node_topic (source e) = topicC \<and> topic_id (node_topic (target e)) = ''C'')
   \<and> \<not> (\<exists>e \<in> set (routeEdges (buildNodes {''C-1''} (computeLayout [topicA, topicB, topicC] 800)
                                  [topicA, topicB, topicC])).
           node_topic (source e) = topicC \<and> topic_id (node_topic (target e)) = ''A'')"
proof -
  let ?ts = "[topicA, topicB, topicC]"
  let ?m = "computeLayout ?ts 800"
  let ?R = "routeEdges (buildNodes {''C-1''} ?m ?ts)"
  have u: "uniqueIds ?ts"
    by (simp add: uniqueIds_def topicA_def topicB_def topicC_def)
  have c: "topicC \<in> set ?ts" by simp
  have r: "''B'' \<in> set (relatedTopics topicC)" "''Z'' \<in> set (relatedTopics topicC)"
    "''C'' \<in> set (relatedTopics topicC)" "''A'' \<in> set (relatedTopics topicC)"
    by (simp_all add: topicC_def)
  have ids: "topic_id topicA = ''A''" "topic_id topicB = ''B''" "topic_id topicC = ''C''"
    and lvs: "level topicA = 1" "level topicB = 2" "level topicC = 1"
    by (simp_all add: topicA_def topicB_def topicC_def)
  note inst = links_follow_level_order [OF u, of "{''C-1''}" ?m]
  from inst c r(1) ids(2) have
    "(\<exists>e \<in> set ?R. source e = mkNode {''C-1''} ?m topicC \<and> target e = mkNode {''C-1''} ?m topicB
        \<and> active e = isComplete {''C-1''} topicC)
     \<longleftrightarrow> (topicB \<in> set ?ts \<and> level topicC < level topicB)"
    by blast
  then have e: "\<exists>e \<in> set ?R. source e = mkNode {''C-1''} ?m topicC
        \<and> target e = mkNode {''C-1''} ?m topicB \<and> active e = isComplete {''C-1''} topicC"
    by (simp add: lvs)
  have cmp: "isComplete {''C-1''} topicC"
    by (simp add: isComplete_def getProgressStats_def topicC_def)
  from inst have none: "\<forall>s \<in> set ?ts. \<forall>t \<in> set (relatedTopics s).
      \<not> (\<exists>tg \<in> set ?ts. topic_id tg = t \<and> level s < level tg) \<longrightarrow>
      \<not> (\<exists>e \<in> set ?R. node_topic (source e) = s \<and> topic_id (node_topic (target e)) = t)"
    by blast
  have z: "\<not> (\<exists>e \<in> set ?R. node_topic (source e) = topicC \<and> topic_id (node_topic (target e)) = ''Z'')"
    by (rule none [rule_format, OF c r(2)]) (simp add: ids lvs)
  have s: "\<not> (\<exists>e \<in> set ?R. node_topic (source e) = topicC \<and> topic_id (node_topic (target e)) = ''C'')"
    by (rule none [rule_format, OF c r(3)]) (simp add: ids lvs)
  have a: "\<not> (\<exists>e \<in> set ?R. node_topic (source e) = topicC \<and> topic_id (node_topic (target e)) = ''A'')"
    by (rule none [rule_format, OF c r(4)]) (simp add: ids lvs)
  from u c r e cmp z s a show ?thesis by blast
qed

section \<open>The initial fit and the zoom across runs of the effect\<close>

lemma single_level_layout:
  assumes "\<forall>t \<in> set topics. level t = 1"
  shows "computeLayout topics h = applySpacing h topics 100 Map.empty"
proof -
  have b: "bucket topics 1 = topics" using assms by (simp add: bucket_def)
  have "snd (buildLevels topics) = (if topics = [] then 0 else 1)"
  proof (cases "topics = []")
    case True
    then show ?thesis by (simp add: buildLevels_max)
  next
    case False
    with assms have "level ` set topics = {1}" by (cases topics) auto
    with False show ?thesis by (simp add: buildLevels_max)
  qed
  then have top: "snd (buildLevels topics) = 0 \<and> topics = [] \<or> snd (buildLevels topics) = 1"
    by (simp split: if_splits)
  have pass: "refinementPass h topics lv mx = (\<lambda>m. m)" if "mx = 0 \<or> mx = 1" for lv mx
    using that by (auto simp: refinementPass_def forUp_fold forDown_fold)
  have "(refinementPass h topics lv mx ^^ n) m = m" if "mx = 0 \<or> mx = 1" for lv mx n m
    by (induction n) (simp_all add: pass [OF that])
  with top have ten: "computeLayout topics h
      = initialPositions h (fst (buildLevels topics)) (snd (buildLevels topics))"
    by (auto simp: computeLayout_def tenPasses_funpow case_prod_unfold Let_def)
  from top show ?thesis
  proof
    assume "snd (buildLevels topics) = 0 \<and> topics = []"
    then show ?thesis
      unfolding ten by (simp add: initialPositions_def forUp_fold applySpacing_def buildLevels_def)
  next
    assume "snd (buildLevels topics) = 1"
    then show ?thesis
      unfolding ten by (simp add: initialPositions_def forUp_fold buildLevels_nodes b)
  qed
qed

lemma twelve_layout:
  "computeLayout twelveTopics 300 = applySpacing 300 twelveTopics 100 Map.empty"
  by (rule single_level_layout) (simp add: twelveTopics_def plainTopic_def)

lemma twelve_xs:
  "map node_x (buildNodes {} (computeLayout twelveTopics 300) twelveTopics)
     = [100, 100, 100, 100, 100, 100, 100, 100, 100, 100, 100, 100]"
  unfolding twelve_layout
  by (simp add: twelveTopics_def plainTopic_def buildNodes_def mkNode_def Let_def
        applySpacing_def NODE_SPACING_def)

lemma twelve_ys:
  "map node_y (buildNodes {} (computeLayout twelveTopics 300) twelveTopics)
     = [- 1390, - 1110, - 830, - 550, - 270, 10, 290, 570, 850, 1130, 1410, 1690]"
  unfolding twelve_layout
  by (simp add: twelveTopics_def plainTopic_def buildNodes_def mkNode_def Let_def
        applySpacing_def NODE_SPACING_def)

lemma twelve_bounds:
  "graphBounds (buildNodes {} (computeLayout twelveTopics 300) twelveTopics)
     = (100, 340, - 1390, 1850)"
proof -
  have eqs: "map (\<lambda>d. node_x d + NODE_WIDTH) ns = map (\<lambda>a. a + NODE_WIDTH) (map node_x ns)"
    "map (\<lambda>d. node_y d + NODE_HEIGHT) ns = map (\<lambda>a. a + NODE_HEIGHT) (map node_y ns)"
    for ns by simp_all
  show ?thesis
    unfolding graphBounds_def eqs twelve_xs twelve_ys
    by (simp add: orZero_def NODE_WIDTH_def NODE_HEIGHT_def)
qed

text \<open>
  Twelve topics of one level in a viewport of 1000 by 300: the graph is 3240 high, the
  scale is raised to 0.1 by the lower clamp, and the projected bounding box runs from
  \<open>y = -12\<close> to \<open>y = 312\<close>.
\<close>

theorem fit_overflows_counterexample:
  "\<not> fitsViewport 1000 300
       (initialTransform 1000 300 (buildNodes {} (computeLayout twelveTopics 300) twelveTopics))
       (buildNodes {} (computeLayout twelveTopics 300) twelveTopics)"
  by (simp add: fitsViewport_def initialTransform_def twelve_bounds fitScale_def Let_def
        scale_def translate_def zoomIdentity_def applyX_def applyY_def)

lemma fold_min_le: "fold min xs (a :: rat) \<le> a"
proof (induction xs arbitrary: a)
  case Nil
  then show ?case by simp
next
  case (Cons x xs)
  have "fold min xs (min x a) \<le> min x a" by (rule Cons.IH)
  then show ?case by simp
qed

lemma fold_max_ge: "(a :: rat) \<le> fold max xs a"
proof (induction xs arbitrary: a)
  case Nil
  then show ?case by simp
next
  case (Cons x xs)
  have "max x a \<le> fold max xs (max x a)" by (rule Cons.IH)
  then show ?case by simp
qed

lemma graphBounds_extent:
  assumes "nodes \<noteq> []" and "graphBounds nodes = (minX, maxX, minY, maxY)"
  shows "NODE_WIDTH \<le> maxX - minX \<and> NODE_HEIGHT \<le> maxY - minY"
proof -
  from assms(1) obtain n ns where n: "nodes = n # ns" by (cases nodes) auto
  from assms(2) have "minX \<le> node_x n" "node_x n + NODE_WIDTH \<le> maxX"
    "minY \<le> node_y n" "node_y n + NODE_HEIGHT \<le> maxY"
    unfolding n graphBounds_def by (auto simp: orZero_def fold_min_le fold_max_ge)
  then show ?thesis by simp
qed

lemma initialTransform_parts:
  assumes "graphBounds nodes = (minX, maxX, minY, maxY)"
  shows "zt_k (initialTransform w h nodes)
           = fitScale (w - 200) (maxX - minX) (h - 200) (maxY - minY)"
    and "zt_x (initialTransform w h nodes)
           = w / 2 - zt_k (initialTransform w h nodes) * ((minX + maxX) / 2)"
    and "zt_y (initialTransform w h nodes)
           = h / 2 - zt_k (initialTransform w h nodes) * ((minY + maxY) / 2)"
  using assms
  by (simp_all add: initialTransform_def Let_def scale_def translate_def zoomIdentity_def)

lemma fitScale_clamp:
  "fitScale aw gw ah gh = max (1 / 10) (min 1 (min (aw / gw) (ah / gh)))"
  by (simp add: fitScale_def Let_def max_def min_def)

lemma fit_contained:
  assumes g: "0 < g" and k: "0 \<le> k" "k \<le> (w - 200) / g"
    and t: "t = w / 2 - k * ((lo + hi) / 2)" and e: "hi - lo = (g :: rat)"
  shows "0 \<le> lo * k + t \<and> hi * k + t \<le> w"
proof -
  from k(2) g have kg: "k * g \<le> w - 200" by (simp add: pos_le_divide_eq)
  from k(1) g have "0 \<le> k * g" by simp
  have lo: "lo * k + t = w / 2 - (k * g) / 2"
    unfolding t e [symmetric] by (simp add: field_simps)
  have hi: "hi * k + t = w / 2 + (k * g) / 2"
    unfolding t e [symmetric] by (simp add: field_simps)
  from kg \<open>0 \<le> k * g\<close> show ?thesis unfolding lo hi by simp
qed

lemma initial_fit_nodes:
  assumes ne: "nodes \<noteq> []" and gb: "graphBounds nodes = (minX, maxX, minY, maxY)"
  shows "zt_k (initialTransform w h nodes)
           = max (1 / 10) (min 1 (min ((w - 200) / (maxX - minX)) ((h - 200) / (maxY - minY))))"
    and "applyX (initialTransform w h nodes) ((minX + maxX) / 2) = w / 2"
    and "applyY (initialTransform w h nodes) ((minY + maxY) / 2) = h / 2"
    and "1 / 10 \<le> min ((w - 200) / (maxX - minX)) ((h - 200) / (maxY - minY))
           \<Longrightarrow> fitsViewport w h (initialTransform w h nodes) nodes"
proof -
  let ?t = "initialTransform w h nodes"
  let ?r = "min ((w - 200) / (maxX - minX)) ((h - 200) / (maxY - minY))"
  note parts = initialTransform_parts [OF gb, of w h]
  show k: "zt_k ?t = max (1 / 10) (min 1 ?r)"
    by (simp add: parts(1) fitScale_clamp)
  show "applyX ?t ((minX + maxX) / 2) = w / 2"
    by (simp add: applyX_def parts(2) mult.commute)
  show "applyY ?t ((minY + maxY) / 2) = h / 2"
    by (simp add: applyY_def parts(3) mult.commute)
  assume r: "1 / 10 \<le> ?r"
  from graphBounds_extent [OF ne gb] have gw: "0 < maxX - minX" and gh: "0 < maxY - minY"
    by (simp_all add: NODE_WIDTH_def NODE_HEIGHT_def)
  from r k have kr: "zt_k ?t = min 1 ?r" by (simp add: max_def min_def split: if_splits)
  with r have k0: "0 \<le> zt_k ?t" and kw: "zt_k ?t \<le> (w - 200) / (maxX - minX)"
    and kh: "zt_k ?t \<le> (h - 200) / (maxY - minY)"
    by (simp_all add: min_def split: if_splits)
  from fit_contained [OF gw k0 kw parts(2) refl] fit_contained [OF gh k0 kh parts(3) refl]
  show "fitsViewport w h ?t nodes"
    by (simp add: fitsViewport_def gb applyX_def applyY_def)
qed

text \<open>
  Claim C6, amended.  For a non-empty topic list, the scale of the initial fit is
  \<open>min(availableWidth/graphWidth, availableHeight/graphHeight)\<close> clamped to at most 1 and at
  least 0.1, and the centre of the bounding box is mapped to the centre of the viewport.
  The projected bounding box lies within the viewport whenever that minimum is at least
  0.1, that is, whenever the lower clamp does not raise the scale.
\<close>

theorem initial_fit_transform:
  assumes "topics \<noteq> []"
  shows "case graphBounds (buildNodes C (computeLayout topics h) topics) of
           (minX, maxX, minY, maxY) \<Rightarrow>
             zt_k (initialTransform w h (buildNodes C (computeLayout topics h) topics))
               = max (1 / 10) (min 1 (min ((w - 200) / (maxX - minX)) ((h - 200) / (maxY - minY))))
           \<and> applyX (initialTransform w h (buildNodes C (computeLayout topics h) topics))
                ((minX + maxX) / 2) = w / 2
           \<and> applyY (initialTransform w h (buildNodes C (computeLayout topics h) topics))
                ((minY + maxY) / 2) = h / 2
           \<and> (1 / 10 \<le> min ((w - 200) / (maxX - minX)) ((h - 200) / (maxY - minY))
                \<longrightarrow> fitsViewport w h
                      (initialTransform w h (buildNodes C (computeLayout topics h) topics))
                      (buildNodes C (computeLayout topics h) topics))"
proof -
  let ?nodes = "buildNodes C (computeLayout topics h) topics"
  from assms have ne: "?nodes \<noteq> []" by (simp add: buildNodes_def)
  obtain minX maxX minY maxY where gb: "graphBounds ?nodes = (minX, maxX, minY, maxY)"
    by (cases "graphBounds ?nodes") auto
  from initial_fit_nodes [OF ne gb, of w h] show ?thesis by (simp add: gb)
qed

lemma scenario_positions:
  "computeLayout [topicA, topicB] 800 ''A'' = Some \<lparr>pos_x = 100, pos_y = 400\<rparr>"
  "computeLayout [topicA, topicB] 800 ''B'' = Some \<lparr>pos_x = 600, pos_y = 400\<rparr>"
proof -
  let ?ts = "[topicA, topicB]"
  have u: "uniqueIds ?ts" by (simp add: uniqueIds_def topicA_def topicB_def)
  have p: "positiveLevels ?ts" by (simp add: positiveLevels_def topicA_def topicB_def)
  have ba: "bucket ?ts (level topicA) = [topicA]" and bb: "bucket ?ts (level topicB) = [topicB]"
    by (simp_all add: bucket_def topicA_def topicB_def)
  from layout_position [OF u p, of topicA 800] obtain order i where
    "mset order = mset [topicA]" "i < length order"
    "computeLayout ?ts 800 (topic_id topicA)
       = Some \<lparr>pos_x = columnX (level topicA), pos_y = slotY 800 (length order) i\<rparr>"
    unfolding ba by auto
  moreover from this(1) have "length order = 1" using mset_eq_length by fastforce
  ultimately show "computeLayout ?ts 800 ''A'' = Some \<lparr>pos_x = 100, pos_y = 400\<rparr>"
    by (simp add: topicA_def columnX_def slotY_def)
  from layout_position [OF u p, of topicB 800] obtain order i where
    "mset order = mset [topicB]" "i < length order"
    "computeLayout ?ts 800 (topic_id topicB)
       = Some \<lparr>pos_x = columnX (level topicB), pos_y = slotY 800 (length order) i\<rparr>"
    unfolding bb by auto
  moreover from this(1) have "length order = 1" using mset_eq_length by fastforce
  ultimately show "computeLayout ?ts 800 ''B'' = Some \<lparr>pos_x = 600, pos_y = 400\<rparr>"
    by (simp add: topicB_def columnX_def slotY_def)
qed

lemma scenario_bounds:
  "graphBounds (buildNodes C (computeLayout [topicA, topicB] 800) [topicA, topicB])
     = (100, 840, 400, 560)"
proof -
  have "topic_id topicA = ''A''" "topic_id topicB = ''B''"
    by (simp_all add: topicA_def topicB_def)
  then show ?thesis
    using mkNode_xy [of "computeLayout [topicA, topicB] 800" topicA _ C]
      mkNode_xy [of "computeLayout [topicA, topicB] 800" topicB _ C]
    by (simp add: graphBounds_def buildNodes_def scenario_positions orZero_def
          NODE_WIDTH_def NODE_HEIGHT_def)
qed

theorem initial_fit_transform_witness:
  "[topicA, topicB] \<noteq> []
   \<and> (1 :: rat) / 10 \<le> min ((1000 - 200) / (840 - 100)) ((800 - 200) / (560 - 400))
   \<and> zt_k (initialTransform 1000 800
             (buildNodes {} (computeLayout [topicA, topicB] 800) [topicA, topicB])) = 1
   \<and> fitsViewport 1000 800
        (initialTransform 1000 800 (buildNodes {} (computeLayout [topicA, topicB] 800) [topicA, topicB]))
        (buildNodes {} (computeLayout [topicA, topicB] 800) [topicA, topicB])"
proof -
  have ne: "[topicA, topicB] \<noteq> []" by simp
  have r: "(1 :: rat) / 10 \<le> min ((1000 - 200) / (840 - 100)) ((800 - 200) / (560 - 400))"
    by simp
  from initial_fit_transform [OF ne, where C = "{}" and h = 800 and w = 1000] r ne show ?thesis
    by (simp add: scenario_bounds)
qed

text \<open>
  Without an open gesture the run draws the scene under the current transform when that is
  not the identity, and under the initial fit when it is.
\<close>

lemma zoom_kept_without_open_gesture:
  assumes "topics \<noteq> []"
  shows "\<exists>sc. renderEffect topics C H \<lparr>transformRef = current, gestureOpen = False\<rparr> w h = Some sc
           \<and> (\<not> isZoomIdentity current \<longrightarrow>
                scene_transform sc = Some current \<and> scene_transformRef sc = current)
           \<and> (isZoomIdentity current \<longrightarrow>
                scene_transform sc = Some (initialTransform w h (scene_nodes sc)))"
  using assms
  by (simp add: renderEffect_def Let_def callZoomTransform_def transformToApply_def)

text \<open>
  Claim C9.  The claim: when a run of the effect is triggered by a toggle of the instructor
  filter and the current transform is not the identity, the scene is drawn under the
  current transform unchanged.  The run below is such a toggle (the instructor of \<open>B\<close> is
  hidden) with the current transform \<open>k = 2, x = 10, y = -5\<close>, made while the wheel gesture
  that set this transform is still open: the new group gets no transform attribute, so the
  scene is drawn untransformed, while \<open>transformRef.current\<close> keeps the transform.
\<close>

theorem zoom_lost_while_gesture_open:
  "\<not> isZoomIdentity \<lparr>zt_k = 2, zt_x = 10, zt_y = - 5\<rparr>
   \<and> (\<exists>sc. renderEffect [topicA, topicB] {} {''bob@d-be.com''}
               \<lparr>transformRef = \<lparr>zt_k = 2, zt_x = 10, zt_y = - 5\<rparr>, gestureOpen = True\<rparr>
               1000 800 = Some sc
          \<and> scene_transform sc = None
          \<and> scene_transformRef sc = \<lparr>zt_k = 2, zt_x = 10, zt_y = - 5\<rparr>)"
  by (simp add: renderEffect_def Let_def callZoomTransform_def transformToApply_def
        isZoomIdentity_def)

section \<open>Layout and ports do not depend on completion or filter\<close>

lemma find_map_mkNode:
  "find (\<lambda>n. topic_id (node_topic n) = t) (map (mkNode C m) topics)
     = map_option (mkNode C m) (find (\<lambda>x. topic_id x = t) topics)"
  by (induction topics) (simp_all add: mkNode_topic)

lemma linksFrom_ends:
  "map (\<lambda>l. (node_topic (source l), node_topic (target l)))
       (linksFrom (map (mkNode C m) topics) (mkNode C m s))
     = concat (map (\<lambda>targetId.
         case find (\<lambda>t. topic_id t = targetId) topics of
           None \<Rightarrow> []
         | Some tg \<Rightarrow> if level s < level tg then [(s, tg)] else [])
         (relatedTopics s))"
proof -
  have pt: "map (\<lambda>l. (node_topic (source l), node_topic (target l)))
          (case find (\<lambda>n. topic_id (node_topic n) = t) (map (mkNode C m) topics) of
             None \<Rightarrow> []
           | Some tgt \<Rightarrow>
               if level (node_topic (mkNode C m s)) < level (node_topic tgt)
               then [\<lparr>source = mkNode C m s, target = tgt, active = node_complete (mkNode C m s),
                      sourceIndex = None, sourceTotal = None,
                      targetIndex = None, targetTotal = None\<rparr>]
               else [])
        = (case find (\<lambda>x. topic_id x = t) topics of
             None \<Rightarrow> []
           | Some tg \<Rightarrow> if level s < level tg then [(s, tg)] else [])" for t
    by (cases "find (\<lambda>x. topic_id x = t) topics") (simp_all add: find_map_mkNode mkNode_topic)
  show ?thesis
    unfolding linksFrom_def map_concat map_map comp_def pt by (simp add: mkNode_topic)
qed

lemma allLinks_ends:
  "map (\<lambda>l. (node_topic (source l), node_topic (target l))) (allLinks (buildNodes C m topics))
     = topicLinks topics"
  by (simp add: allLinks_def buildNodes_def topicLinks_def map_concat comp_def linksFrom_ends)

lemma routeEdges_ends:
  "map (\<lambda>l. (node_topic (source l), node_topic (target l))) (routeEdges (buildNodes C m topics))
     = topicLinks topics"
proof -
  from routeEdges_sameEnds [of "buildNodes C m topics"]
  have "map (\<lambda>l. (node_topic (source l), node_topic (target l))) (routeEdges (buildNodes C m topics))
      = map (\<lambda>l. (node_topic (source l), node_topic (target l))) (allLinks (buildNodes C m topics))"
    by (intro nth_equalityI) (simp_all add: sameEnds_def)
  then show ?thesis by (simp add: allLinks_ends)
qed

lemma length_routeEdges: "length (routeEdges (buildNodes C m topics)) = length (topicLinks topics)"
proof -
  have "length (map (\<lambda>l. (node_topic (source l), node_topic (target l)))
           (routeEdges (buildNodes C m topics))) = length (topicLinks topics)"
    by (simp only: routeEdges_ends)
  then show ?thesis by simp
qed

lemma routed_ends_in_nodes:
  assumes "e \<in> set (routeEdges nodes)"
  shows "source e \<in> set nodes \<and> target e \<in> set nodes"
proof -
  from routed_link_origin [OF assms] obtain l where
    l: "l \<in> set (allLinks nodes)" "source e = source l" "target e = target l" by blast
  from l(1) [unfolded in_allLinks] obtain src t tgt where
    "src \<in> set nodes" "find (\<lambda>n. topic_id (node_topic n) = t) nodes = Some tgt"
    "source l = src" "target l = tgt" by auto
  with l(2,3) show ?thesis by (auto simp: find_Some_iff)
qed

lemma routed_ends_mkNode:
  assumes "a < length (topicLinks topics)"
  shows "source (routeEdges (buildNodes C m topics) ! a) = mkNode C m (fst (topicLinks topics ! a))
       \<and> target (routeEdges (buildNodes C m topics) ! a) = mkNode C m (snd (topicLinks topics ! a))"
proof -
  let ?R = "routeEdges (buildNodes C m topics)"
  have len: "length ?R = length (topicLinks topics)" by (rule length_routeEdges)
  with assms have a: "a < length ?R" by simp
  then have "(node_topic (source (?R ! a)), node_topic (target (?R ! a)))
      = map (\<lambda>l. (node_topic (source l), node_topic (target l))) ?R ! a" by simp
  then have e: "(node_topic (source (?R ! a)), node_topic (target (?R ! a))) = topicLinks topics ! a"
    by (simp only: routeEdges_ends)
  from a have "?R ! a \<in> set ?R" by simp
  from routed_ends_in_nodes [OF this]
  obtain s tg where st: "source (?R ! a) = mkNode C m s" "target (?R ! a) = mkNode C m tg"
    by (auto simp: buildNodes_def)
  with e have "topicLinks topics ! a = (s, tg)" by (simp add: mkNode_topic)
  with st show ?thesis by simp
qed

lemma mkNode_geometry: "nodeGeometry (mkNode C1 m t) = nodeGeometry (mkNode C2 m t)"
  by (simp add: nodeGeometry_def mkNode_def Let_def)

lemma portOrder_agree:
  assumes len: "length links' = length links"
    and e: "\<And>a. a < length links \<Longrightarrow>
              endId (links' ! a) = endId (links ! a) \<and> otherY (links' ! a) = otherY (links ! a)"
  shows "portOrder endId otherY k links' = portOrder endId otherY k links"
proof -
  have "filter (\<lambda>a. endId (links' ! a) = k) [0..<length links]
          = filter (\<lambda>a. endId (links ! a) = k) [0..<length links]"
    by (rule filter_cong) (simp_all add: e)
  moreover have "sort_key (\<lambda>a. otherY (links' ! a)) (filter (\<lambda>a. endId (links ! a) = k) [0..<length links])
          = sort_key (\<lambda>a. otherY (links ! a)) (filter (\<lambda>a. endId (links ! a) = k) [0..<length links])"
    by (rule sort_key_agree) (simp add: e)
  ultimately show ?thesis by (simp add: portOrder_def len)
qed

lemma ports_agree:
  assumes len: "length links' = length links"
    and e: "\<And>a. a < length links \<Longrightarrow>
              endId (links' ! a) = endId (links ! a) \<and> otherY (links' ! a) = otherY (links ! a)"
    and p: "ported rd (portOrder endId otherY (endId (links ! a)) links) links"
    and p': "ported rd (portOrder endId otherY (endId (links ! a)) links') links'"
    and a: "a < length links"
  shows "rd (links' ! a) = rd (links ! a)"
proof -
  let ?ord = "portOrder endId otherY (endId (links ! a)) links"
  have o: "portOrder endId otherY (endId (links ! a)) links' = ?ord"
    by (rule portOrder_agree [OF len e])
  from a have "a \<in> set ?ord" by (simp add: set_portOrder)
  then obtain j where j: "j < length ?ord" "?ord ! j = a" by (auto simp: in_set_conv_nth)
  from p j have "rd (links ! a) = (Some j, Some (length ?ord))" by (auto simp: ported_def)
  moreover from p' j have "rd (links' ! a) = (Some j, Some (length ?ord))"
    unfolding o by (auto simp: ported_def)
  ultimately show ?thesis by simp
qed

lemma routeEdges_geometry:
  "map linkGeometry (routeEdges (buildNodes C1 m topics))
     = map linkGeometry (routeEdges (buildNodes C2 m topics))"
proof (rule nth_equalityI)
  let ?R1 = "routeEdges (buildNodes C1 m topics)" and ?R2 = "routeEdges (buildNodes C2 m topics)"
  have len1: "length ?R1 = length (topicLinks topics)" by (rule length_routeEdges)
  have len2: "length ?R2 = length (topicLinks topics)" by (rule length_routeEdges)
  show "length (map linkGeometry ?R1) = length (map linkGeometry ?R2)"
    by (simp add: len1 len2)
  fix a assume "a < length (map linkGeometry ?R1)"
  then have a: "a < length (topicLinks topics)" by (simp add: len1)
  have ends: "nodeGeometry (source (?R2 ! b)) = nodeGeometry (source (?R1 ! b))
            \<and> nodeGeometry (target (?R2 ! b)) = nodeGeometry (target (?R1 ! b))"
    if "b < length ?R1" for b
    using that routed_ends_mkNode [of b topics C1 m] routed_ends_mkNode [of b topics C2 m]
      mkNode_geometry [of C1 m _ C2]
    by (simp add: len1)
  then have ends': "topic_id (node_topic (source (?R2 ! b))) = topic_id (node_topic (source (?R1 ! b)))
            \<and> node_y (target (?R2 ! b)) = node_y (target (?R1 ! b))
            \<and> topic_id (node_topic (target (?R2 ! b))) = topic_id (node_topic (target (?R1 ! b)))
            \<and> node_y (source (?R2 ! b)) = node_y (source (?R1 ! b))"
    if "b < length ?R1" for b
    using that by (simp add: nodeGeometry_def)
  from a have in1: "?R1 ! a \<in> set ?R1" and in2: "?R2 ! a \<in> set ?R2" by (simp_all add: len1 len2)
  note n1 = routed_ends_in_nodes [OF in1] and n2 = routed_ends_in_nodes [OF in2]
  from a ends' [of a] have id2:
    "topic_id (node_topic (source (?R2 ! a))) = topic_id (node_topic (source (?R1 ! a)))"
    "topic_id (node_topic (target (?R2 ! a))) = topic_id (node_topic (target (?R1 ! a)))"
    by (simp_all add: len1)
  have src: "(sourceIndex (?R2 ! a), sourceTotal (?R2 ! a)) = (sourceIndex (?R1 ! a), sourceTotal (?R1 ! a))"
  proof (rule ports_agree [where rd = "\<lambda>l. (sourceIndex l, sourceTotal l)"
        and endId = "\<lambda>l. topic_id (node_topic (source l))" and otherY = "\<lambda>l. node_y (target l)"])
    show "length ?R2 = length ?R1" by (simp add: len1 len2)
    show "a < length ?R1" using a by (simp add: len1)
    show "ported (\<lambda>l. (sourceIndex l, sourceTotal l))
            (portOrder (\<lambda>l. topic_id (node_topic (source l))) (\<lambda>l. node_y (target l))
               (topic_id (node_topic (source (?R1 ! a)))) ?R1) ?R1"
      using n1 by (intro routeEdges_source_ported) simp
    show "ported (\<lambda>l. (sourceIndex l, sourceTotal l))
            (portOrder (\<lambda>l. topic_id (node_topic (source l))) (\<lambda>l. node_y (target l))
               (topic_id (node_topic (source (?R1 ! a)))) ?R2) ?R2"
      unfolding id2 [symmetric] using n2 by (intro routeEdges_source_ported) simp
  qed (use ends' in simp)
  have tgt: "(targetIndex (?R2 ! a), targetTotal (?R2 ! a)) = (targetIndex (?R1 ! a), targetTotal (?R1 ! a))"
  proof (rule ports_agree [where rd = "\<lambda>l. (targetIndex l, targetTotal l)"
        and endId = "\<lambda>l. topic_id (node_topic (target l))" and otherY = "\<lambda>l. node_y (source l)"])
    show "length ?R2 = length ?R1" by (simp add: len1 len2)
    show "a < length ?R1" using a by (simp add: len1)
    show "ported (\<lambda>l. (targetIndex l, targetTotal l))
            (portOrder (\<lambda>l. topic_id (node_topic (target l))) (\<lambda>l. node_y (source l))
               (topic_id (node_topic (target (?R1 ! a)))) ?R1) ?R1"
      using n1 by (intro routeEdges_target_ported) simp
    show "ported (\<lambda>l. (targetIndex l, targetTotal l))
            (portOrder (\<lambda>l. topic_id (node_topic (target l))) (\<lambda>l. node_y (source l))
               (topic_id (node_topic (target (?R1 ! a)))) ?R2) ?R2"
      unfolding id2 [symmetric] using n2 by (intro routeEdges_target_ported) simp
  qed (use ends' in simp)
  from a ends [of a] src tgt
  show "map linkGeometry ?R1 ! a = map linkGeometry ?R2 ! a"
    by (simp add: len1 len2 linkGeometry_def)
qed

lemma buildNodes_geometry:
  "map nodeGeometry (buildNodes C1 m topics) = map nodeGeometry (buildNodes C2 m topics)"
  by (simp add: buildNodes_def mkNode_geometry [of C1 m _ C2])

text \<open>
  Claim C8.  For fixed topics and viewport, two runs of the effect with any two completion
  sets, any two sets of hidden instructors (and any two view states) give the same
  node positions and the same link ends and port numbers; with the same completion set
  the nodes and links are the same altogether, so the filter changes the opacities only.
\<close>

theorem layout_ignores_completion_and_filter:
  assumes "topics \<noteq> []"
  shows "\<exists>s1 s2. renderEffect topics C1 H1 T1 w h = Some s1
           \<and> renderEffect topics C2 H2 T2 w h = Some s2
           \<and> map nodeGeometry (scene_nodes s1) = map nodeGeometry (scene_nodes s2)
           \<and> map linkGeometry (scene_links s1) = map linkGeometry (scene_links s2)
           \<and> (C1 = C2 \<longrightarrow> scene_nodes s1 = scene_nodes s2 \<and> scene_links s1 = scene_links s2)"
  using assms buildNodes_geometry [of C1 "computeLayout topics h" topics C2]
    routeEdges_geometry [of C1 "computeLayout topics h" topics C2]
  by (simp add: renderEffect_def Let_def callZoomTransform_def)

theorem layout_ignores_completion_and_filter_witness:
  "[topicA, topicB] \<noteq> []
   \<and> (\<exists>s1 s2. renderEffect [topicA, topicB] {} {} freshView 1000 800 = Some s1
         \<and> renderEffect [topicA, topicB] {''A-1''} {''bob@d-be.com''} freshView 1000 800 = Some s2
         \<and> map nodeGeometry (scene_nodes s1) = map nodeGeometry (scene_nodes s2)
         \<and> map linkGeometry (scene_links s1) = map linkGeometry (scene_links s2)
         \<and> map active (scene_links s1) = [False]
         \<and> map active (scene_links s2) = [True])
   \<and> (\<exists>s1 s2. renderEffect [topicA, topicB] {} {} freshView 1000 800 = Some s1
         \<and> renderEffect [topicA, topicB] {} {''bob@d-be.com''} freshView 1000 800 = Some s2
         \<and> scene_nodes s1 = scene_nodes s2 \<and> scene_links s1 = scene_links s2)"
proof (intro conjI)
  let ?ts = "[topicA, topicB]"
  show ne: "?ts \<noteq> []" by simp
  have off: "\<not> isComplete {} topicA" and on: "isComplete {''A-1''} topicA"
    by (simp_all add: isComplete_def getProgressStats_def topicA_def)
  have act: "map active (scene_links sc) = [isComplete C topicA]"
    if "renderEffect ?ts C H T w h = Some sc" for sc C H T w h
  proof -
    from that have "scene_links sc = routeEdges (buildNodes C (computeLayout ?ts h) ?ts)"
      by (auto simp: renderEffect_def Let_def callZoomTransform_def)
    then show ?thesis by (simp add: scenario_routeEdges mkNode_complete)
  qed
  from layout_ignores_completion_and_filter [OF ne, where ?C1.0 = "{}" and ?H1.0 = "{}"
      and ?T1.0 = freshView and ?C2.0 = "{''A-1''}" and ?H2.0 = "{''bob@d-be.com''}"
      and ?T2.0 = freshView and w = 1000 and h = 800]
  obtain s1 where "\<exists>s2. renderEffect ?ts {} {} freshView 1000 800 = Some s1
         \<and> renderEffect ?ts {''A-1''} {''bob@d-be.com''} freshView 1000 800 = Some s2
         \<and> map nodeGeometry (scene_nodes s1) = map nodeGeometry (scene_nodes s2)
         \<and> map linkGeometry (scene_links s1) = map linkGeometry (scene_links s2)
         \<and> ({} = {''A-1''} \<longrightarrow> scene_nodes s1 = scene_nodes s2 \<and> scene_links s1 = scene_links s2)" ..
  then obtain s2 where all: "renderEffect ?ts {} {} freshView 1000 800 = Some s1
         \<and> renderEffect ?ts {''A-1''} {''bob@d-be.com''} freshView 1000 800 = Some s2
         \<and> map nodeGeometry (scene_nodes s1) = map nodeGeometry (scene_nodes s2)
         \<and> map linkGeometry (scene_links s1) = map linkGeometry (scene_links s2)
         \<and> ({} = {''A-1''} \<longrightarrow> scene_nodes s1 = scene_nodes s2 \<and> scene_links s1 = scene_links s2)" ..
  note a = all [THEN conjunct1] all [THEN conjunct2, THEN conjunct1]
    all [THEN conjunct2, THEN conjunct2, THEN conjunct1]
    all [THEN conjunct2, THEN conjunct2, THEN conjunct2, THEN conjunct1]
  from act [OF a(1)] off have f1: "map active (scene_links s1) = [False]" by simp
  from act [OF a(2)] on have f2: "map active (scene_links s2) = [True]" by simp
  show "\<exists>s1 s2. renderEffect ?ts {} {} freshView 1000 800 = Some s1
         \<and> renderEffect ?ts {''A-1''} {''bob@d-be.com''} freshView 1000 800 = Some s2
         \<and> map nodeGeometry (scene_nodes s1) = map nodeGeometry (scene_nodes s2)
         \<and> map linkGeometry (scene_links s1) = map linkGeometry (scene_links s2)
         \<and> map active (scene_links s1) = [False]
         \<and> map active (scene_links s2) = [True]"
    by (intro exI [of _ s1] exI [of _ s2] conjI a f1 f2)
  from layout_ignores_completion_and_filter [OF ne, where ?C1.0 = "{}" and ?H1.0 = "{}"
      and ?T1.0 = freshView and ?C2.0 = "{}" and ?H2.0 = "{''bob@d-be.com''}"
      and ?T2.0 = freshView and w = 1000 and h = 800]
  obtain t1 where "\<exists>s2. renderEffect ?ts {} {} freshView 1000 800 = Some t1
         \<and> renderEffect ?ts {} {''bob@d-be.com''} freshView 1000 800 = Some s2
         \<and> map nodeGeometry (scene_nodes t1) = map nodeGeometry (scene_nodes s2)
         \<and> map linkGeometry (scene_links t1) = map linkGeometry (scene_links s2)
         \<and> ({} = ({} :: string set) \<longrightarrow> scene_nodes t1 = scene_nodes s2 \<and> scene_links t1 = scene_links s2)" ..
  then obtain t2 where all': "renderEffect ?ts {} {} freshView 1000 800 = Some t1
         \<and> renderEffect ?ts {} {''bob@d-be.com''} freshView 1000 800 = Some t2
         \<and> map nodeGeometry (scene_nodes t1) = map nodeGeometry (scene_nodes t2)
         \<and> map linkGeometry (scene_links t1) = map linkGeometry (scene_links t2)
         \<and> ({} = ({} :: string set) \<longrightarrow> scene_nodes t1 = scene_nodes t2 \<and> scene_links t1 = scene_links t2)" ..
  note b = all' [THEN conjunct1] all' [THEN conjunct2, THEN conjunct1]
    all' [THEN conjunct2, THEN conjunct2, THEN conjunct2, THEN conjunct2]
  from b(3) have "scene_nodes t1 = scene_nodes t2" "scene_links t1 = scene_links t2" by simp_all
  with b(1,2)
  show "\<exists>s1 s2. renderEffect ?ts {} {} freshView 1000 800 = Some s1
         \<and> renderEffect ?ts {} {''bob@d-be.com''} freshView 1000 800 = Some s2
         \<and> scene_nodes s1 = scene_nodes s2 \<and> scene_links s1 = scene_links s2"
    by (intro exI [of _ t1] exI [of _ t2] conjI)
qed

end
